theory Spec2Isabelle
  imports Complex_Main "HOL-Library.Multiset"
begin

section \<open>The priority queue: class MinHeap\<close>

text \<open>
  The queue stores JavaScript arrays \<open>[priority, item]\<close> in the array \<open>this.heap\<close>.
  An entry is modelled as a pair, the array as a list. Priorities are the numbers the
  engine pushes: sums of edge costs, modelled as integers with exact arithmetic (the
  costs of every graph of the source are small integers, on which JavaScript's doubles
  are exact).
\<close>

type_synonym 'a entry = "int \<times> 'a"

text \<open>
  \<open>_bubbleUp(n)\<close>: \<open>el\<close> is read once, before the loop; the loop walks towards the
  root while the parent's priority is larger. The only caller is \<open>push\<close>, with
  \<open>n = heap.length - 1\<close>, so every index read is in range.
\<close>

function bubbleUp_loop :: "'a entry list \<Rightarrow> 'a entry \<Rightarrow> nat \<Rightarrow> 'a entry list" where
  "bubbleUp_loop heap el n =
     (if n > 0 then
        (let parentN = (n + 1) div 2 - 1;
             parent = heap ! parentN
         in if fst el \<ge> fst parent then heap
            else bubbleUp_loop (heap[parentN := el, n := parent]) el parentN)
      else heap)"
  by pat_completeness auto
termination
  by (relation "measure (\<lambda>(heap, el, n). n)") auto

declare bubbleUp_loop.simps [simp del]

definition bubbleUp :: "'a entry list \<Rightarrow> nat \<Rightarrow> 'a entry list" where
  "bubbleUp heap n = bubbleUp_loop heap (heap ! n) n"

definition push :: "'a entry list \<Rightarrow> 'a entry \<Rightarrow> 'a entry list" where
  "push heap item = (let heap' = heap @ [item] in bubbleUp heap' (length heap' - 1))"

text \<open>
  One round of \<open>_sinkDown\<close>'s loop body up to the test \<open>swap === null\<close>: the index to
  swap with, or \<open>None\<close> for \<open>null\<close>.
\<close>

definition pick_swap :: "'a entry list \<Rightarrow> 'a entry \<Rightarrow> nat \<Rightarrow> nat option" where
  "pick_swap heap el n =
     (let len = length heap;
          child2N = (n + 1) * 2;
          child1N = child2N - 1;
          swap1 = (if child1N < len \<and> fst (heap ! child1N) < fst el then Some child1N else None)
      in if child2N < len
            \<and> (case swap1 of None \<Rightarrow> fst el | Some _ \<Rightarrow> fst (heap ! child1N)) > fst (heap ! child2N)
         then Some child2N else swap1)"

lemma pick_swap_range:
  "pick_swap heap el n = Some s \<Longrightarrow> n < s \<and> s < length heap \<and> (s = (n + 1) * 2 - 1 \<or> s = (n + 1) * 2)"
  by (auto simp: pick_swap_def Let_def split: if_splits)

function sinkDown_loop :: "'a entry list \<Rightarrow> 'a entry \<Rightarrow> nat \<Rightarrow> 'a entry list" where
  "sinkDown_loop heap el n =
     (case pick_swap heap el n of
        None \<Rightarrow> heap
      | Some swap \<Rightarrow> sinkDown_loop (heap[n := heap ! swap, swap := el]) el swap)"
  by pat_completeness auto
termination
  by (relation "measure (\<lambda>(heap, el, n). length heap - n)")
     (auto dest!: pick_swap_range)

declare sinkDown_loop.simps [simp del]

definition sinkDown :: "'a entry list \<Rightarrow> nat \<Rightarrow> 'a entry list" where
  "sinkDown heap n = sinkDown_loop heap (heap ! n) n"

text \<open>
  \<open>pop()\<close> returns \<open>null\<close> on an empty array (here \<open>None\<close>, the array unchanged);
  otherwise it removes the last element, and if anything is left writes it to the root
  and sinks it.
\<close>

definition pop :: "'a entry list \<Rightarrow> 'a entry option \<times> 'a entry list" where
  "pop heap =
     (if length heap = 0 then (None, heap)
      else (let top = heap ! 0;
                end = last heap;
                heap' = butlast heap
            in if length heap' \<noteq> 0 then (Some top, sinkDown (heap'[0 := end]) 0)
               else (Some top, heap')))"


section \<open>The shortest-path engine: function dijkstra\<close>

text \<open>
  A node identifier is a JavaScript string. An edge is an object \<open>{to, cost}\<close>; a graph
  is an object from node identifiers to arrays of edges, modelled as an association list
  in key order (\<open>Object.keys(graph)\<close> is the list of first components, \<open>graph[u]\<close>
  is \<open>map_of graph u\<close>, \<open>None\<close> standing for \<open>undefined\<close>). The keys of an object
  are distinct; should a list repeat a key, its first entry is the one read.
\<close>

type_synonym node = string

record edge =
  to :: node
  cost :: int

type_synonym graph = "(node \<times> edge list) list"

text \<open>
  The values stored in \<open>dist\<close>: a finite number or \<open>Infinity\<close>. A key that was never
  written reads as \<open>undefined\<close>, which is \<open>None\<close> of the map. In \<open>prev\<close> the values
  \<open>null\<close> and \<open>undefined\<close> are both \<open>None\<close>: the code only ever tests them for
  truthiness. The field for \<open>dist\<close> is named \<open>distv\<close>, since \<open>dist\<close> is the metric of
  the library.

  Two things bound where this model is the code. The objects \<open>dist\<close> and \<open>prev\<close> are
  read as finite maps: that is how a plain object behaves for every key but
  \<open>__proto__\<close>, whose writes store nothing, and for every name that is not a key unless a
  plain object inherits it (\<open>constructor\<close>, \<open>toString\<close> and the like, which read as
  functions, not as \<open>undefined\<close>). Costs are integers and are added exactly: that is how
  doubles behave on integers as long as no sum exceeds \<open>2^53\<close>. A property stated for
  all graphs carries these bounds as hypotheses where its truth depends on them.
\<close>

datatype num = Num int | Infinity

record dstate =
  distv :: "node \<rightharpoonup> num"
  prev :: "node \<rightharpoonup> node"
  pq :: "node entry list"

text \<open>
  The two comparisons of the loop. A comparison with \<open>undefined\<close> is false in
  JavaScript, whichever way it is written.
\<close>

definition alt_lt :: "int \<Rightarrow> num option \<Rightarrow> bool" where
  "alt_lt alt x = (case x of None \<Rightarrow> False | Some Infinity \<Rightarrow> True | Some (Num y) \<Rightarrow> alt < y)"

definition d_gt :: "int \<Rightarrow> num option \<Rightarrow> bool" where
  "d_gt d x = (case x of None \<Rightarrow> False | Some Infinity \<Rightarrow> False | Some (Num y) \<Rightarrow> d > y)"

text \<open>
  The body of \<open>for (const edge of graph[u])\<close> for one edge, and the loop over the
  array of edges.
\<close>

definition relax_edge :: "node \<Rightarrow> int \<Rightarrow> edge \<Rightarrow> dstate \<Rightarrow> dstate" where
  "relax_edge u d e st =
     (let v = to e; alt = d + cost e
      in if alt_lt alt (distv st v)
         then st\<lparr>distv := (distv st)(v \<mapsto> Num alt),
                 prev := (prev st)(v \<mapsto> u),
                 pq := push (pq st) (alt, v)\<rparr>
         else st)"

definition relax :: "node \<Rightarrow> int \<Rightarrow> edge list \<Rightarrow> dstate \<Rightarrow> dstate" where
  "relax u d edges st = fold (relax_edge u d) edges st"

text \<open>
  Iterating \<open>graph[u]\<close> when \<open>u\<close> is not a key of the graph throws a \<open>TypeError\<close>
  (\<open>undefined\<close> is not iterable).
\<close>

datatype error = TypeError

text \<open>
  The \<open>while (true)\<close> loop. It has no bound of its own, so not returning is the value
  \<open>None\<close>; \<open>Some (Inl TypeError)\<close> is the exception, \<open>Some (Inr st)\<close> the state at
  either \<open>break\<close>.
\<close>

partial_function (option) dijkstra_loop :: "graph \<Rightarrow> node \<Rightarrow> dstate \<Rightarrow> (error + dstate) option" where
  "dijkstra_loop graph dst st =
     (case pop (pq st) of
        (None, _) \<Rightarrow> Some (Inr st)
      | (Some (d, u), heap') \<Rightarrow>
          (let st' = st\<lparr>pq := heap'\<rparr>
           in if d_gt d (distv st' u) then dijkstra_loop graph dst st'
              else if u = dst then Some (Inr st')
              else (case map_of graph u of
                      None \<Rightarrow> Some (Inl TypeError)
                    | Some edges \<Rightarrow> dijkstra_loop graph dst (relax u d edges st'))))"

declare dijkstra_loop.simps [code]

text \<open>
  \<open>let u = dst; while (u) { path.unshift(u); u = prev[u] }\<close>: the loop stops at a falsy
  \<open>u\<close>, which is \<open>null\<close>, \<open>undefined\<close> or the empty string.
\<close>

partial_function (option) reconstruct :: "(node \<rightharpoonup> node) \<Rightarrow> node option \<Rightarrow> node list \<Rightarrow> node list option" where
  "reconstruct prv u path =
     (case u of
        None \<Rightarrow> Some path
      | Some n \<Rightarrow> if n = [] then Some path else reconstruct prv (prv n) (n # path))"

declare reconstruct.simps [code]

definition init :: "graph \<Rightarrow> node \<Rightarrow> dstate" where
  "init graph src =
     \<lparr>distv = (fold (\<lambda>n m. m(n \<mapsto> Infinity)) (map fst graph) Map.empty)(src \<mapsto> Num 0),
      prev = Map.empty,
      pq = push [] (0, src)\<rparr>"

text \<open>
  The result: \<open>null\<close> is \<open>NotFound\<close>; the object \<open>{path, distance}\<close> is \<open>Found\<close>, whose
  distance is whatever \<open>dist[dst]\<close> holds (\<open>None\<close> when that is \<open>undefined\<close>).
\<close>

datatype result = NotFound | Found "node list" "num option"

definition dijkstra :: "graph \<Rightarrow> node \<Rightarrow> node \<Rightarrow> (error + result) option" where
  "dijkstra graph src dst =
     (case dijkstra_loop graph dst (init graph src) of
        None \<Rightarrow> None
      | Some (Inl e) \<Rightarrow> Some (Inl e)
      | Some (Inr st) \<Rightarrow>
          if distv st dst = Some Infinity then Some (Inr NotFound)
          else (case reconstruct (prev st) (Some dst) [] of
                  None \<Rightarrow> None
                | Some path \<Rightarrow> Some (Inr (Found path (distv st dst)))))"

subsection \<open>The regional graphs\<close>

text \<open>\<open>E t c\<close> is the object literal \<open>{to: t, cost: c}\<close>.\<close>

definition E :: "node \<Rightarrow> int \<Rightarrow> edge" where
  "E t c = \<lparr>to = t, cost = c\<rparr>"

definition server1 :: graph where
  "server1 =
     [(''A'', [E ''B'' 1, E ''C'' 2]),
      (''B'', [E ''A'' 1, E ''D'' 2]),
      (''C'', [E ''A'' 2, E ''F'' 3]),
      (''D'', [E ''B'' 2, E ''E'' 2]),
      (''E'', [E ''D'' 2, E ''G'' 3]),
      (''F'', [E ''C'' 3, E ''G'' 1]),
      (''G'', [E ''F'' 1, E ''E'' 3])]"

definition server2 :: graph where
  "server2 =
     [(''A'', [E ''B'' 1, E ''C'' 3]),
      (''B'', [E ''A'' 1, E ''D'' 1]),
      (''C'', [E ''A'' 3, E ''F'' 2]),
      (''D'', [E ''B'' 1, E ''E'' 4]),
      (''E'', [E ''D'' 4, E ''G'' 1]),
      (''F'', [E ''C'' 2, E ''G'' 2]),
      (''G'', [E ''F'' 2, E ''E'' 1])]"

definition server3 :: graph where
  "server3 =
     [(''A'', [E ''C'' 2]),
      (''C'', [E ''A'' 2, E ''F'' 2]),
      (''F'', [E ''C'' 2, E ''G'' 1]),
      (''G'', [E ''F'' 1]),
      (''B'', [E ''D'' 2]),
      (''D'', [E ''B'' 2]),
      (''E'', [])]"

definition REGIONAL_GRAPHS :: "graph list" where
  "REGIONAL_GRAPHS = [server1, server2, server3]"


section \<open>The dispatcher and the routing service: function submitRequest\<close>

text \<open>
  \<open>!fromNode\<close> is false exactly for a non-empty string: \<open>null\<close> (here \<open>None\<close>) and the
  empty string are falsy.
\<close>

definition truthy :: "node option \<Rightarrow> bool" where
  "truthy x = (case x of None \<Rightarrow> False | Some s \<Rightarrow> s \<noteq> [])"

text \<open>
  The round-robin line of \<open>submitRequest\<close>:
  \<open>const serverIndex = roundRobinState % 3; setRoundRobinState(s => s+1)\<close>,
  as a function from the counter to the index and the new counter.
\<close>

definition selectBackend :: "nat \<Rightarrow> nat \<times> nat" where
  "selectBackend roundRobinState = (roundRobinState mod 3, roundRobinState + 1)"

text \<open>
  What a call of \<open>submitRequest\<close> ends in, named after the message it logs: the request
  for both nodes, the simulated failure of the chosen server, no route, or the route found;
  \<open>Threw\<close> is an exception of the engine leaving \<open>submitRequest\<close> (a rejected promise).
  Each carries the server index but the first, which is decided before a server is chosen.
\<close>

datatype outcome =
    MissingEndpoint
  | BackendFailure nat
  | NoRoute nat
  | Route nat "node list" "num option"
  | Threw nat error

record app =
  roundRobinState :: nat
  fromNode :: "node option"
  toNode :: "node option"
  simulateFailureRate :: real

text \<open>
  \<open>submitRequest\<close>, given the component's state and the value \<open>draw\<close> that
  \<open>Math.random()\<close> yields in \<open>Math.random() < simulateFailureRate\<close>. It returns the state
  after the call, the calls of \<open>dijkstra\<close> it made (server index, source, destination),
  and the outcome, \<open>None\<close> if the engine does not return. The simulated latency only
  delays the call and is left out, as is the drawing of the route on the globe.
\<close>

definition submitRequest :: "app \<Rightarrow> real \<Rightarrow> app \<times> (nat \<times> node \<times> node) list \<times> outcome option" where
  "submitRequest st draw =
     (if \<not> truthy (fromNode st) \<or> \<not> truthy (toNode st) then (st, [], Some MissingEndpoint)
      else
        (let (serverIndex, counter) = selectBackend (roundRobinState st);
             st' = st\<lparr>roundRobinState := counter\<rparr>;
             willFail = (draw < simulateFailureRate st)
         in if willFail then (st', [], Some (BackendFailure serverIndex))
            else
              (let graph = REGIONAL_GRAPHS ! serverIndex;
                   src = the (fromNode st);
                   dst = the (toNode st)
               in (st', [(serverIndex, src, dst)],
                   (case dijkstra graph src dst of
                      None \<Rightarrow> None
                    | Some (Inl e) \<Rightarrow> Some (Threw serverIndex e)
                    | Some (Inr NotFound) \<Rightarrow> Some (NoRoute serverIndex)
                    | Some (Inr (Found path d)) \<Rightarrow> Some (Route serverIndex path d))))))"

text \<open>
  A sequence of calls. Between two calls the user may change the two node fields and the
  failure rate, so each call comes with their values and with its own draw.
\<close>

fun submitAll :: "app \<Rightarrow> (node option \<times> node option \<times> real \<times> real) list \<Rightarrow> app" where
  "submitAll st [] = st"
| "submitAll st ((f, t, rate, draw) # calls) =
     submitAll (fst (submitRequest (st\<lparr>fromNode := f, toNode := t, simulateFailureRate := rate\<rparr>) draw)) calls"

text \<open>The indices chosen by \<open>n\<close> consecutive selections, from the counter \<open>c\<close>.\<close>

fun selections :: "nat \<Rightarrow> nat \<Rightarrow> nat list" where
  "selections 0 c = []"
| "selections (Suc n) c = (case selectBackend c of (i, c') \<Rightarrow> i # selections n c')"

section \<open>Notions the properties are stated with\<close>

text \<open>
  The binary min-heap order on the array: every index but the root holds a priority at
  least that of its parent, index \<open>floor((i + 1) / 2) - 1\<close>.
\<close>

definition par :: "nat \<Rightarrow> nat" where
  "par i = (i + 1) div 2 - 1"

definition heap_ok :: "'a entry list \<Rightarrow> bool" where
  "heap_ok h = list_all (\<lambda>i. fst (h ! par i) \<le> fst (h ! i)) [1..<length h]"

text \<open>
  The loop invariants of \<open>_bubbleUp\<close> and \<open>_sinkDown\<close>: the order holds everywhere but
  at the element on the move, and across it (grandparent to grandchild).
\<close>

definition bu_inv :: "'a entry list \<Rightarrow> nat \<Rightarrow> bool" where
  "bu_inv h n \<longleftrightarrow> n < length h
     \<and> (\<forall>i. 0 < i \<and> i < length h \<and> i \<noteq> n \<longrightarrow> fst (h ! par i) \<le> fst (h ! i))
     \<and> (\<forall>i. 0 < i \<and> i < length h \<and> par i = n \<and> 0 < n \<longrightarrow> fst (h ! par n) \<le> fst (h ! i))"

definition sd_inv :: "'a entry list \<Rightarrow> nat \<Rightarrow> bool" where
  "sd_inv h n \<longleftrightarrow> n < length h
     \<and> (\<forall>i. 0 < i \<and> i < length h \<and> par i \<noteq> n \<longrightarrow> fst (h ! par i) \<le> fst (h ! i))
     \<and> (\<forall>i. 0 < i \<and> i < length h \<and> par i = n \<and> 0 < n \<longrightarrow> fst (h ! par n) \<le> fst (h ! i))"

text \<open>The keys of a graph object.\<close>

definition keys :: "graph \<Rightarrow> node set" where
  "keys g = fst ` set g"

text \<open>Every edge cost of the graph is non-negative.\<close>

definition nonneg_costs :: "graph \<Rightarrow> bool" where
  "nonneg_costs g = (\<forall>(u, es) \<in> set g. \<forall>e \<in> set es. 0 \<le> cost e)"

text \<open>Every edge endpoint of the graph is one of its keys.\<close>

definition wf_graph :: "graph \<Rightarrow> bool" where
  "wf_graph g = (\<forall>(u, es) \<in> set g. \<forall>e \<in> set es. to e \<in> keys g)"

text \<open>
  The code adds costs as IEEE doubles. Doubles represent every integer up to \<open>2 ^ 53\<close> exactly
  and add two such integers exactly when the sum is at most \<open>2 ^ 53\<close>. Every sum the engine
  forms is the distance of a settled node plus the cost of one of its outgoing edges, hence
  at most the sum of all edge costs of the graph when costs are non-negative integers.
  \<open>safe_costs\<close> bounds that total, so that the integer arithmetic of the model is the
  arithmetic of the code.
\<close>

definition safe_costs :: "graph \<Rightarrow> bool" where
  "safe_costs g \<longleftrightarrow> sum_list (map cost (concat (map snd g))) \<le> 2 ^ 53"

text \<open>
  \<open>route g u p c v\<close>: the node list \<open>p\<close> is a directed path of the graph \<open>g\<close> from \<open>u\<close>
  to \<open>v\<close>, and \<open>c\<close> is the sum of the costs of the edges taken along it (between two nodes
  there may be several edges, each with its own cost).
\<close>

inductive route :: "graph \<Rightarrow> node \<Rightarrow> node list \<Rightarrow> int \<Rightarrow> node \<Rightarrow> bool" for g where
  stay: "u \<in> keys g \<Longrightarrow> route g u [u] 0 u"
| step: "map_of g u = Some es \<Longrightarrow> e \<in> set es \<Longrightarrow> route g (to e) p c v
           \<Longrightarrow> route g u (u # p) (cost e + c) v"

text \<open>
  A node is settled when its tentative distance is finite and no queue entry carries that
  distance for it; it is unsettled when its distance is still \<open>Infinity\<close> or the entry
  with its current distance is waiting in the queue.
\<close>

definition settled :: "dstate \<Rightarrow> node \<Rightarrow> bool" where
  "settled st v \<longleftrightarrow> (\<exists>dv. distv st v = Some (Num dv) \<and> (dv, v) \<notin> set (pq st))"

definition unsettled :: "dstate \<Rightarrow> node set" where
  "unsettled st = {v. distv st v = Some Infinity
                      \<or> (\<exists>dv. distv st v = Some (Num dv) \<and> (dv, v) \<in> set (pq st))}"

text \<open>
  The invariant of the \<open>while\<close> loop that its termination rests on: the queue is a heap
  without duplicates, every entry's priority is at least its node's tentative distance, and
  no settled node's distance exceeds a priority in the queue. \<open>rinv d\<close> is its form
  between two edges of the node popped with priority \<open>d\<close>.
\<close>

definition tinv :: "dstate \<Rightarrow> bool" where
  "tinv st \<longleftrightarrow> heap_ok (pq st) \<and> distinct (pq st) \<and> finite (dom (distv st))
     \<and> (\<forall>d u. (d, u) \<in> set (pq st) \<longrightarrow> (\<exists>du. distv st u = Some (Num du) \<and> du \<le> d))
     \<and> (\<forall>v dv d u. distv st v = Some (Num dv) \<and> (dv, v) \<notin> set (pq st) \<and> (d, u) \<in> set (pq st)
            \<longrightarrow> dv \<le> d)"

definition rinv :: "int \<Rightarrow> dstate \<Rightarrow> bool" where
  "rinv d st \<longleftrightarrow> heap_ok (pq st) \<and> distinct (pq st) \<and> finite (dom (distv st))
     \<and> (\<forall>d' w. (d', w) \<in> set (pq st)
            \<longrightarrow> d \<le> d' \<and> (\<exists>dw. distv st w = Some (Num dw) \<and> dw \<le> d'))
     \<and> (\<forall>v dv. distv st v = Some (Num dv) \<and> (dv, v) \<notin> set (pq st) \<longrightarrow> dv \<le> d)"

text \<open>
  \<open>rchain prv r\<close>: read from its head, the list \<open>r\<close> follows the \<open>prev\<close> links until a
  node without one; this is the order in which the path loop visits the nodes.
\<close>

fun rchain :: "(node \<rightharpoonup> node) \<Rightarrow> node list \<Rightarrow> bool" where
  "rchain prv [] = False"
| "rchain prv [x] = (prv x = None)"
| "rchain prv (x # y # r) = (prv x = Some y \<and> rchain prv (y # r))"

text \<open>
  The invariant of the loop that its result rests on. All outgoing edges of a settled
  node are relaxed; every finite tentative distance is the cost of a path from the source
  that the \<open>prev\<close> links spell out and whose inner nodes are settled. While the edges of
  the node \<open>cur\<close> are being processed, its own edges are exempt. \<open>post\<close> is what holds
  of the destination when the loop is left.
\<close>

definition relaxed :: "graph \<Rightarrow> (node \<rightharpoonup> num) \<Rightarrow> node \<Rightarrow> int \<Rightarrow> bool" where
  "relaxed g dm v dv \<longleftrightarrow>
     (\<forall>es e. map_of g v = Some es \<and> e \<in> set es
        \<longrightarrow> (\<exists>dw. dm (to e) = Some (Num dw) \<and> dw \<le> dv + cost e))"

definition traced :: "graph \<Rightarrow> node \<Rightarrow> dstate \<Rightarrow> node \<Rightarrow> int \<Rightarrow> bool" where
  "traced g src st v dv \<longleftrightarrow>
     (\<exists>p. route g src p dv v \<and> rchain (prev st) (rev p) \<and> (\<forall>x \<in> set (butlast p). settled st x))"

definition cinv :: "graph \<Rightarrow> node \<Rightarrow> node option \<Rightarrow> dstate \<Rightarrow> bool" where
  "cinv g src cur st \<longleftrightarrow> dom (distv st) = keys g
     \<and> (\<exists>d0. distv st src = Some (Num d0) \<and> d0 \<le> 0)
     \<and> (\<forall>v dv. distv st v = Some (Num dv) \<and> (dv, v) \<notin> set (pq st) \<and> Some v \<noteq> cur
            \<longrightarrow> relaxed g (distv st) v dv)
     \<and> (\<forall>v dv. distv st v = Some (Num dv) \<longrightarrow> traced g src st v dv)"

definition rphase :: "graph \<Rightarrow> node \<Rightarrow> node \<Rightarrow> int \<Rightarrow> dstate \<Rightarrow> bool" where
  "rphase g src u d s \<longleftrightarrow> rinv d s \<and> cinv g src (Some u) s
     \<and> distv s u = Some (Num d) \<and> (d, u) \<notin> set (pq s)"

definition post :: "graph \<Rightarrow> node \<Rightarrow> node \<Rightarrow> dstate \<Rightarrow> bool" where
  "post g src dst st \<longleftrightarrow> dst \<in> dom (distv st)
     \<and> (\<forall>p c. route g src p c dst \<longrightarrow> (\<exists>dv. distv st dst = Some (Num dv) \<and> dv \<le> c))
     \<and> (\<forall>dv. distv st dst = Some (Num dv)
            \<longrightarrow> (\<exists>p. route g src p dv dst \<and> rchain (prev st) (rev p)))"

section \<open>Properties of the priority queue\<close>

lemma heap_ok_iff:
  "heap_ok h \<longleftrightarrow> (\<forall>i. 0 < i \<and> i < length h \<longrightarrow> fst (h ! par i) \<le> fst (h ! i))"
  by (auto simp: heap_ok_def list_all_iff)

lemma par_less: "0 < i \<Longrightarrow> par i < i"
  unfolding par_def by arith

lemma bubbleUp_loop_unfold:
  "bubbleUp_loop h el n =
     (if 0 < n \<and> fst el < fst (h ! par n)
      then bubbleUp_loop (h[par n := el, n := h ! par n]) el (par n) else h)"
  by (subst bubbleUp_loop.simps) (auto simp: Let_def par_def)

lemma bubbleUp_loop_mset:
  "n < length h \<Longrightarrow> h ! n = el \<Longrightarrow> mset (bubbleUp_loop h el n) = mset h"
proof (induction n arbitrary: h rule: less_induct)
  case (less n)
  show ?case
  proof (cases "0 < n \<and> fst el < fst (h ! par n)")
    case True
    then have pn: "par n < n" by (simp add: par_less)
    let ?h = "h[par n := el, n := h ! par n]"
    have "?h ! par n = el" using pn less.prems by simp
    moreover have "par n < length ?h" using pn less.prems by simp
    ultimately have "mset (bubbleUp_loop ?h el (par n)) = mset ?h"
      using less.IH[OF pn] by blast
    moreover have "mset ?h = mset h"
      using mset_swap[of n h "par n"] pn less.prems by simp
    ultimately show ?thesis using True by (subst bubbleUp_loop_unfold) simp
  next
    case False
    then show ?thesis by (subst bubbleUp_loop_unfold) auto
  qed
qed

lemma bu_inv_step:
  assumes inv: "bu_inv h n" and n0: "0 < n" and lt: "fst (h ! n) < fst (h ! par n)"
  shows "bu_inv (h[par n := h ! n, n := h ! par n]) (par n)"
proof -
  define p where "p = par n"
  define h' where "h' = h[p := h ! n, n := h ! p]"
  have pn: "p < n" using n0 by (simp add: p_def par_less)
  have nl: "n < length h" using inv by (simp add: bu_inv_def)
  have len: "length h' = length h" by (simp add: h'_def)
  have A: "fst (h ! par i) \<le> fst (h ! i)" if "0 < i" "i < length h" "i \<noteq> n" for i
    using inv that by (simp add: bu_inv_def)
  have B: "fst (h ! p) \<le> fst (h ! i)" if "0 < i" "i < length h" "par i = n" for i
    using inv n0 that by (simp add: bu_inv_def p_def)
  have rn: "h' ! n = h ! p" using nl by (simp add: h'_def)
  have rp: "h' ! p = h ! n" using pn nl by (simp add: h'_def)
  have ro: "h' ! i = h ! i" if "i \<noteq> n" "i \<noteq> p" for i
    using that by (simp add: h'_def)
  have C: "fst (h' ! par i) \<le> fst (h' ! i)" if i: "0 < i" "i < length h" "i \<noteq> p" for i
  proof -
    have qi: "par i < i" using i by (simp add: par_less)
    consider "i = n" | "i \<noteq> n" "par i = n" | "i \<noteq> n" "par i = p" | "i \<noteq> n" "par i \<noteq> n" "par i \<noteq> p"
      by blast
    then show ?thesis
    proof cases
      case 1
      then show ?thesis using rn rp lt p_def by simp
    next
      case 2
      then have "fst (h ! p) \<le> fst (h ! i)" using B i by blast
      then show ?thesis using 2 rn ro[of i] i by simp
    next
      case 3
      then have "fst (h ! p) \<le> fst (h ! i)" using A[of i] i by simp
      then show ?thesis using 3 rp ro[of i] i lt p_def by simp
    next
      case 4
      then show ?thesis using A[of i] ro[of i] ro[of "par i"] i by simp
    qed
  qed
  have D: "fst (h' ! par p) \<le> fst (h' ! i)" if i: "0 < i" "i < length h" "par i = p" "0 < p" for i
  proof -
    have gp: "par p < p" using i by (simp add: par_less)
    have g: "h' ! par p = h ! par p" using gp pn by (intro ro) auto
    have pp: "fst (h ! par p) \<le> fst (h ! p)" using A[of p] i pn nl by simp
    have ip: "i \<noteq> p" using par_less[of i] i by auto
    show ?thesis
    proof (cases "i = n")
      case True
      then show ?thesis using g rn pp by simp
    next
      case False
      then have "fst (h ! p) \<le> fst (h ! i)" using A[of i] i by simp
      then show ?thesis using g ro[of i] False ip pp by simp
    qed
  qed
  have "bu_inv h' p"
    unfolding bu_inv_def using C D pn nl len by auto
  then show ?thesis by (simp add: h'_def p_def)
qed

lemma bubbleUp_loop_ok:
  "bu_inv h n \<Longrightarrow> h ! n = el \<Longrightarrow> heap_ok (bubbleUp_loop h el n)"
proof (induction n arbitrary: h rule: less_induct)
  case (less n)
  have nl: "n < length h" using less.prems by (simp add: bu_inv_def)
  show ?case
  proof (cases "0 < n \<and> fst el < fst (h ! par n)")
    case True
    then have pn: "par n < n" by (simp add: par_less)
    let ?h = "h[par n := el, n := h ! par n]"
    have "bu_inv ?h (par n)" using bu_inv_step[of h n] less.prems True by auto
    moreover have "?h ! par n = el" using pn nl by simp
    ultimately have "heap_ok (bubbleUp_loop ?h el (par n))"
      using less.IH[OF pn] by blast
    then show ?thesis using True by (subst bubbleUp_loop_unfold) simp
  next
    case False
    have "fst (h ! par i) \<le> fst (h ! i)" if "0 < i" "i < length h" for i
    proof (cases "i = n")
      case True
      then show ?thesis using False that less.prems(2) by auto
    next
      case False
      then show ?thesis using less.prems(1) that by (simp add: bu_inv_def)
    qed
    then have "heap_ok h" by (simp add: heap_ok_iff)
    then show ?thesis using False by (subst bubbleUp_loop_unfold) auto
  qed
qed

lemma push_ok: "heap_ok h \<Longrightarrow> heap_ok (push h x)"
proof -
  assume ok: "heap_ok h"
  have A: "fst ((h @ [x]) ! par i) \<le> fst ((h @ [x]) ! i)" if "0 < i" "i < length h" for i
  proof -
    have "par i < length h" using par_less[of i] that by simp
    then show ?thesis using ok that by (simp add: heap_ok_iff nth_append)
  qed
  have B: "par i \<noteq> length h" if "i < length (h @ [x])" "0 < i" for i
    using par_less[of i] that by simp
  have "bu_inv (h @ [x]) (length h)"
    unfolding bu_inv_def using A B by (auto simp: less_Suc_eq)
  then show ?thesis
    by (simp add: push_def bubbleUp_def Let_def bubbleUp_loop_ok)
qed

lemma push_mset: "mset (push h x) = add_mset x (mset h)"
  by (simp add: push_def bubbleUp_def Let_def bubbleUp_loop_mset)

lemma pick_swap_None:
  assumes "pick_swap h el n = None" "c < length h" "c = (n + 1) * 2 - 1 \<or> c = (n + 1) * 2"
  shows "fst el \<le> fst (h ! c)"
  using assms by (auto simp: pick_swap_def Let_def split: if_splits)

lemma pick_swap_Some:
  assumes "pick_swap h el n = Some s"
  shows "fst (h ! s) < fst el"
    and "c < length h \<Longrightarrow> c = (n + 1) * 2 - 1 \<or> c = (n + 1) * 2 \<Longrightarrow> fst (h ! s) \<le> fst (h ! c)"
  using assms by (auto simp: pick_swap_def Let_def split: if_splits)

lemma par_child: "0 < i \<Longrightarrow> par i = n \<longleftrightarrow> (i = (n + 1) * 2 - 1 \<or> i = (n + 1) * 2)"
  unfolding par_def by arith

lemma sinkDown_loop_mset:
  "n < length h \<Longrightarrow> h ! n = el \<Longrightarrow> mset (sinkDown_loop h el n) = mset h"
proof (induction h el n rule: sinkDown_loop.induct)
  case (1 heap el n)
  show ?case
  proof (cases "pick_swap heap el n")
    case None
    then show ?thesis by (subst sinkDown_loop.simps) simp
  next
    case (Some s)
    then have s: "n < s" "s < length heap" using pick_swap_range by blast+
    let ?h = "heap[n := heap ! s, s := el]"
    have "mset (sinkDown_loop ?h el s) = mset ?h"
      using s by (intro "1.IH"[OF Some]) auto
    moreover have "mset ?h = mset heap"
      using mset_swap[of s heap n] s "1.prems" by simp
    ultimately show ?thesis using Some by (subst sinkDown_loop.simps) simp
  qed
qed

lemma sd_inv_step:
  assumes inv: "sd_inv h n" and sw: "pick_swap h (h ! n) n = Some s"
  shows "sd_inv (h[n := h ! s, s := h ! n]) s"
proof -
  define h' where "h' = h[n := h ! s, s := h ! n]"
  have s: "n < s" "s < length h" "s = (n + 1) * 2 - 1 \<or> s = (n + 1) * 2"
    using pick_swap_range[OF sw] by blast+
  have ps: "par s = n" using s par_child[of s n] by simp
  have len: "length h' = length h" by (simp add: h'_def)
  have lt: "fst (h ! s) < fst (h ! n)" using pick_swap_Some(1)[OF sw] .
  have mn: "fst (h ! s) \<le> fst (h ! c)" if "0 < c" "c < length h" "par c = n" for c
    using pick_swap_Some(2)[OF sw, of c] that par_child[of c n] by simp
  have A: "fst (h ! par i) \<le> fst (h ! i)" if "0 < i" "i < length h" "par i \<noteq> n" for i
    using inv that by (simp add: sd_inv_def)
  have B: "fst (h ! par n) \<le> fst (h ! i)" if "0 < i" "i < length h" "par i = n" "0 < n" for i
    using inv that by (simp add: sd_inv_def)
  have rn: "h' ! n = h ! s" using s by (simp add: h'_def)
  have rs: "h' ! s = h ! n" using s by (simp add: h'_def)
  have ro: "h' ! i = h ! i" if "i \<noteq> n" "i \<noteq> s" for i
    using that by (simp add: h'_def)
  have C: "fst (h' ! par i) \<le> fst (h' ! i)" if i: "0 < i" "i < length h" "par i \<noteq> s" for i
  proof -
    have qi: "par i < i" using i by (simp add: par_less)
    consider "i = s" | "i \<noteq> s" "par i = n" | "i = n" | "i \<noteq> s" "i \<noteq> n" "par i \<noteq> n"
      by blast
    then show ?thesis
    proof cases
      case 1
      then show ?thesis using ps rn rs lt by simp
    next
      case 2
      then have "i \<noteq> n" using qi by auto
      then show ?thesis using 2 mn[of i] i rn ro[of i] by simp
    next
      case 3
      then have n0: "0 < n" using i by simp
      have "par n \<noteq> n" "par n \<noteq> s" using par_less[OF n0] s by auto
      then have "h' ! par n = h ! par n" by (intro ro)
      moreover have "fst (h ! par n) \<le> fst (h ! s)" using B[of s] s ps n0 by simp
      ultimately show ?thesis using 3 rn by simp
    next
      case 4
      then show ?thesis using A[of i] i ro[of i] ro[of "par i"] by simp
    qed
  qed
  have D: "fst (h' ! par s) \<le> fst (h' ! i)" if i: "0 < i" "i < length h" "par i = s" for i
  proof -
    have "s < i" using par_less[of i] i by simp
    then have "i \<noteq> n" "i \<noteq> s" using s by auto
    then have "h' ! i = h ! i" by (intro ro)
    moreover have "fst (h ! s) \<le> fst (h ! i)" using A[of i] i s by simp
    ultimately show ?thesis using ps rn by simp
  qed
  have "sd_inv h' s"
    unfolding sd_inv_def using C D s len by auto
  then show ?thesis by (simp add: h'_def)
qed

lemma sinkDown_loop_ok:
  "sd_inv h n \<Longrightarrow> h ! n = el \<Longrightarrow> heap_ok (sinkDown_loop h el n)"
proof (induction h el n rule: sinkDown_loop.induct)
  case (1 heap el n)
  have nl: "n < length heap" using "1.prems" by (simp add: sd_inv_def)
  show ?case
  proof (cases "pick_swap heap el n")
    case None
    have "fst (heap ! par i) \<le> fst (heap ! i)" if i: "0 < i" "i < length heap" for i
    proof (cases "par i = n")
      case True
      then show ?thesis
        using pick_swap_None[OF None, of i] i par_child[of i n] "1.prems"(2) by simp
    next
      case False
      then show ?thesis using "1.prems"(1) i by (simp add: sd_inv_def)
    qed
    then have "heap_ok heap" by (simp add: heap_ok_iff)
    then show ?thesis using None by (subst sinkDown_loop.simps) simp
  next
    case (Some s)
    then have s: "n < s" "s < length heap" using pick_swap_range by blast+
    let ?h = "heap[n := heap ! s, s := el]"
    have "sd_inv ?h s" using sd_inv_step[of heap n s] "1.prems" Some by simp
    moreover have "?h ! s = el" using s by simp
    ultimately have "heap_ok (sinkDown_loop ?h el s)"
      by (intro "1.IH"[OF Some])
    then show ?thesis using Some by (subst sinkDown_loop.simps) simp
  qed
qed

lemma heap_ok_root_le:
  assumes "heap_ok h" "i < length h"
  shows "fst (h ! 0) \<le> fst (h ! i)"
  using assms(2)
proof (induction i rule: less_induct)
  case (less i)
  show ?case
  proof (cases "i = 0")
    case True
    then show ?thesis by simp
  next
    case False
    then have "par i < i" by (simp add: par_less)
    moreover have "fst (h ! par i) \<le> fst (h ! i)"
      using assms(1) False less.prems by (simp add: heap_ok_iff)
    ultimately show ?thesis using less.IH[of "par i"] less.prems by force
  qed
qed

lemma heap_ok_hd_min:
  assumes "heap_ok h" "e \<in> set h"
  shows "fst (h ! 0) \<le> fst e"
  using assms heap_ok_root_le by (metis in_set_conv_nth)

lemma pop_empty: "pop [] = (None, [])"
  by (simp add: pop_def)

lemma pop_nonempty:
  assumes "heap_ok h" "h \<noteq> []"
  shows "\<exists>h'. pop h = (Some (h ! 0), h') \<and> heap_ok h' \<and> mset h = add_mset (h ! 0) (mset h')"
proof (cases "butlast h = []")
  case True
  have "h = butlast h @ [last h]" using assms(2) by simp
  then have h1: "h = [last h]" using True by simp
  then have "h ! 0 = last h" by (metis nth_Cons_0)
  then have "mset h = add_mset (h ! 0) (mset ([] :: 'a entry list))"
    using h1 by (metis mset.simps(2))
  moreover have "heap_ok ([] :: 'a entry list)" by (simp add: heap_ok_def)
  moreover have "pop h = (Some (h ! 0), [])"
    using True assms(2) by (simp add: pop_def Let_def)
  ultimately show ?thesis by blast
next
  case False
  define b where "b = butlast h"
  define h0 where "h0 = b[0 := last h]"
  have bl: "0 < length b" using False unfolding b_def by blast
  have len: "length h = Suc (length b)" using assms(2) by (simp add: b_def)
  have bi: "b ! i = h ! i" if "i < length b" for i
    using that by (simp add: b_def nth_butlast)
  have "sd_inv h0 0"
    unfolding sd_inv_def
  proof (intro conjI allI impI)
    show "0 < length h0" using bl by (simp add: h0_def)
  next
    fix i assume i: "0 < i \<and> i < length h0 \<and> par i \<noteq> 0"
    then have il: "i < length b" by (simp add: h0_def)
    have pi: "par i < i" using i by (simp add: par_less)
    have "h0 ! i = h ! i" using i il bi by (simp add: h0_def)
    moreover have "h0 ! par i = h ! par i"
      using i il pi bi by (simp add: h0_def)
    moreover have "fst (h ! par i) \<le> fst (h ! i)"
      using assms(1) i il len by (simp add: heap_ok_iff)
    ultimately show "fst (h0 ! par i) \<le> fst (h0 ! i)" by simp
  next
    fix i assume "0 < i \<and> i < length h0 \<and> par i = 0 \<and> (0::nat) < 0"
    then show "fst (h0 ! par 0) \<le> fst (h0 ! i)" by simp
  qed
  then have ok: "heap_ok (sinkDown h0 0)" by (simp add: sinkDown_def sinkDown_loop_ok)
  have "mset (sinkDown h0 0) = mset h0"
    using bl by (simp add: sinkDown_def sinkDown_loop_mset h0_def)
  also have "\<dots> = add_mset (last h) (mset b - {#b ! 0#})"
    using bl by (simp add: h0_def mset_update)
  finally have m: "mset (sinkDown h0 0) = add_mset (last h) (mset b - {#b ! 0#})" .
  have "b ! 0 \<in># mset b" using bl by simp
  then have mb: "mset b = add_mset (b ! 0) (mset b - {#b ! 0#})" by simp
  have "mset (butlast h @ [last h]) = add_mset (last h) (mset b)" by (simp add: b_def)
  then have "mset h = add_mset (last h) (mset b)" using assms(2) by simp
  also have "\<dots> = add_mset (last h) (add_mset (b ! 0) (mset b - {#b ! 0#}))"
    using mb by simp
  also have "\<dots> = add_mset (h ! 0) (mset (sinkDown h0 0))"
    using m bi[OF bl] by (simp add: add_mset_commute)
  finally have "mset h = add_mset (h ! 0) (mset (sinkDown h0 0))" .
  moreover have "pop h = (Some (h ! 0), sinkDown h0 0)"
    using assms(2) False by (simp add: pop_def Let_def h0_def b_def)
  ultimately show ?thesis using ok by blast
qed

text \<open>
  Claim C9. The heap order is an invariant: it holds of the empty array, and \<open>push\<close> and
  \<open>pop\<close> preserve it. \<open>push\<close> adds exactly the pushed entry. On a non-empty heap
  \<open>pop\<close> returns a stored entry whose priority is minimal among all stored entries and
  removes exactly that entry; on the empty heap it returns \<open>null\<close> and leaves the array
  empty.
\<close>

theorem MinHeap_order_invariant:
  "heap_ok ([] :: 'a entry list)
   \<and> pop ([] :: 'a entry list) = (None, [])
   \<and> (heap_ok h \<longrightarrow> heap_ok (push h x) \<and> mset (push h x) = add_mset x (mset h))
   \<and> (heap_ok h \<and> h \<noteq> [] \<longrightarrow>
        (\<exists>top h'. pop h = (Some top, h') \<and> heap_ok h' \<and> top \<in> set h
           \<and> mset h = add_mset top (mset h') \<and> (\<forall>e \<in> set h. fst top \<le> fst e)))"
proof (intro conjI impI)
  show "heap_ok ([] :: 'a entry list)" by (simp add: heap_ok_def)
  show "pop ([] :: 'a entry list) = (None, [])" by (rule pop_empty)
  show "heap_ok (push h x)" if "heap_ok h" using that by (rule push_ok)
  show "mset (push h x) = add_mset x (mset h)" by (rule push_mset)
next
  assume a: "heap_ok h \<and> h \<noteq> []"
  then obtain h' where p: "pop h = (Some (h ! 0), h')" "heap_ok h'"
      "mset h = add_mset (h ! 0) (mset h')"
    using pop_nonempty[of h] by blast
  have "h ! 0 \<in> set h" using a by simp
  moreover have "\<forall>e \<in> set h. fst (h ! 0) \<le> fst e"
    using a heap_ok_hd_min[of h] by blast
  ultimately show "\<exists>top h'. pop h = (Some top, h') \<and> heap_ok h' \<and> top \<in> set h
      \<and> mset h = add_mset top (mset h') \<and> (\<forall>e \<in> set h. fst top \<le> fst e)"
    using p by blast
qed

theorem MinHeap_order_invariant_witness:
  "heap_ok [(1, ''a''), (3, ''b''), (2, ''c'')]
   \<and> heap_ok (push [(1, ''a''), (3, ''b''), (2, ''c'')] (0, ''d''))
   \<and> (\<exists>top h'. pop [(1, ''a''), (3, ''b''), (2, ''c'')] = (Some top, h') \<and> heap_ok h'
         \<and> fst top \<le> 2)"
proof -
  have ok: "heap_ok [(1, ''a''), (3, ''b''), (2, ''c'')]" by code_simp
  have ne: "[(1::int, ''a''), (3, ''b''), (2, ''c'')] \<noteq> []" by simp
  have m: "(2::int, ''c'') \<in> set [(1, ''a''), (3, ''b''), (2, ''c'')]" by simp
  from MinHeap_order_invariant[of "[(1, ''a''), (3, ''b''), (2, ''c'')]" "(0, ''d'')"] ok ne
  have "heap_ok (push [(1, ''a''), (3, ''b''), (2, ''c'')] (0, ''d''))"
    and "\<exists>top h'. pop [(1, ''a''), (3, ''b''), (2, ''c'')] = (Some top, h') \<and> heap_ok h'
           \<and> (\<forall>e \<in> set [(1, ''a''), (3, ''b''), (2, ''c'')]. fst top \<le> fst e)"
    by blast+
  then show ?thesis using ok m by fastforce
qed

section \<open>The engine on the concrete graphs\<close>

text \<open>
  Claim C7. On Server 1's graph the engine answers the request from A to G with the path
  A, C, F, G and the distance 6.
\<close>

theorem scenario1_server1_A_G:
  "dijkstra server1 ''A'' ''G'' = Some (Inr (Found [''A'', ''C'', ''F'', ''G''] (Some (Num 6))))"
  by code_simp

section \<open>Round-robin selection and the request counter\<close>

lemma selections_eq: "selections n c = map (\<lambda>i. (c + i) mod 3) [0..<n]"
proof (induction n arbitrary: c)
  case 0
  then show ?case by simp
next
  case (Suc n)
  have "[0..<Suc n] = 0 # [Suc 0..<Suc n]" by (rule upt_conv_Cons) simp
  also have "\<dots> = 0 # map Suc [0..<n]" by (simp only: map_Suc_upt)
  finally have u: "[0..<Suc n] = 0 # map Suc [0..<n]" .
  have "selections (Suc n) c = c mod 3 # selections n (c + 1)"
    by (simp add: selectBackend_def)
  also have "\<dots> = c mod 3 # map (\<lambda>i. (c + 1 + i) mod 3) [0..<n]"
    by (simp only: Suc)
  also have "\<dots> = map (\<lambda>i. (c + i) mod 3) (0 # map Suc [0..<n])"
    by (simp add: comp_def)
  finally show ?case by (simp only: u)
qed

lemma window_count:
  fixes c j :: nat
  assumes "j < 3"
  shows "count_list [c mod 3, Suc c mod 3, Suc (Suc c) mod 3] j = (1::nat)"
proof -
  define r where "r = c mod 3"
  have r: "r < 3" by (simp add: r_def)
  have r1: "Suc c mod 3 = (r + 1) mod 3" unfolding r_def by presburger
  have r2: "Suc (Suc c) mod 3 = (r + 2) mod 3" unfolding r_def by presburger
  consider "r = 0" | "r = 1" | "r = 2" using r by linarith
  then have "count_list [r, (r + 1) mod 3, (r + 2) mod 3] j = 1"
  proof cases
    case 1
    then show ?thesis using assms by auto
  next
    case 2
    then show ?thesis using assms by auto
  next
    case 3
    then show ?thesis using assms by auto
  qed
  then show ?thesis by (simp only: r1 r2 r_def)
qed

lemma selections_Suc3:
  "selections (Suc (Suc (Suc n))) c
     = [c mod 3, Suc c mod 3, Suc (Suc c) mod 3] @ selections n (Suc (Suc (Suc c)))"
  by (simp add: selectBackend_def)

lemma selections_count:
  assumes "j < 3"
  shows "count_list (selections n c) j = n div 3 \<or> count_list (selections n c) j = (n + 2) div 3"
proof (induction n arbitrary: c rule: less_induct)
  case (less n)
  show ?case
  proof (cases "n < 3")
    case True
    then consider "n = 0" | "n = 1" | "n = 2" by linarith
    then show ?thesis
    proof cases
      case 1
      then show ?thesis by simp
    next
      case 2
      then show ?thesis by (simp add: selectBackend_def)
    next
      case 3
      have "c mod 3 \<noteq> Suc c mod 3" by presburger
      moreover have "selections (Suc (Suc 0)) c = [c mod 3, Suc c mod 3]"
        by (simp add: selectBackend_def)
      moreover have "n = Suc (Suc 0)" using 3 by simp
      ultimately show ?thesis by auto
    qed
  next
    case False
    then have "n = Suc (Suc (Suc (n - 3)))" by simp
    then obtain m where m: "n = Suc (Suc (Suc m))" ..
    have "count_list (selections n c) j
        = count_list [c mod 3, Suc c mod 3, Suc (Suc c) mod 3] j
          + count_list (selections m (Suc (Suc (Suc c)))) j"
      by (simp only: m selections_Suc3 count_list_append)
    then have "count_list (selections n c) j = 1 + count_list (selections m (Suc (Suc (Suc c)))) j"
      by (simp only: window_count[OF assms, of c])
    moreover have "count_list (selections m (Suc (Suc (Suc c)))) j = m div 3
        \<or> count_list (selections m (Suc (Suc (Suc c)))) j = (m + 2) div 3"
      using less.IH[of m "Suc (Suc (Suc c))"] m by simp
    moreover have "n div 3 = 1 + m div 3" "(n + 2) div 3 = 1 + (m + 2) div 3"
      using m by simp_all
    ultimately show ?thesis by linarith
  qed
qed

text \<open>
  Claim C3. A selection returns the counter modulo the number of backends, which the
  source fixes at 3, and advances the counter by one. So \<open>n\<close> consecutive selections
  from the counter \<open>c\<close> return \<open>c mod 3, (c + 1) mod 3, \<dots>\<close>, the cyclic sequence
  starting at \<open>c mod 3\<close>, and each index occurs \<open>floor(n / 3)\<close> or \<open>ceil(n / 3)\<close> times.
\<close>

theorem round_robin_selection:
  "selectBackend c = (c mod 3, c + 1)
   \<and> selections n c = map (\<lambda>i. (c + i) mod 3) [0..<n]
   \<and> (\<forall>j < 3. count_list (selections n c) j = n div 3
               \<or> count_list (selections n c) j = (n + 2) div 3)"
  using selections_eq[of n c] selections_count[of _ n c]
  by (simp add: selectBackend_def)

theorem round_robin_selection_witness:
  "selections 7 5 = [2, 0, 1, 2, 0, 1, 2]
   \<and> (count_list (selections 7 5) 0 = 7 div 3 \<or> count_list (selections 7 5) 0 = (7 + 2) div 3)"
proof -
  have "selections 7 5 = [2, 0, 1, 2, 0, 1, 2]" by code_simp
  moreover have "(0::nat) < 3" by simp
  ultimately show ?thesis using round_robin_selection[of 5 7] by blast
qed

lemma submit_failure:
  assumes "truthy (fromNode st)" "truthy (toNode st)" "draw < simulateFailureRate st"
  shows "submitRequest st draw
       = (st\<lparr>roundRobinState := roundRobinState st + 1\<rparr>, [],
          Some (BackendFailure (roundRobinState st mod 3)))"
  using assms by (simp add: submitRequest_def selectBackend_def)

lemma submit_counter:
  "roundRobinState (fst (submitRequest st draw))
     = roundRobinState st + (if truthy (fromNode st) \<and> truthy (toNode st) then 1 else 0)"
  by (simp add: submitRequest_def selectBackend_def Let_def)

lemma submitAll_counter:
  "roundRobinState (submitAll st calls)
     = roundRobinState st + length (filter (\<lambda>(f, t, rate, draw). truthy f \<and> truthy t) calls)"
proof (induction calls arbitrary: st)
  case Nil
  then show ?case by simp
next
  case (Cons x calls)
  obtain f t rate draw where x: "x = (f, t, rate, draw)" by (cases x)
  show ?case unfolding x by (simp add: Cons.IH submit_counter)
qed

text \<open>
  Claim C4. When both nodes are given and the failure draw is below the failure rate, the
  call ends in the simulated failure of the chosen server, and its list of engine calls is
  empty: \<open>dijkstra\<close> is not invoked. With the rate 1 this is so for every draw below 1,
  which is every value \<open>Math.random()\<close> returns.
\<close>

theorem simulated_failure_skips_engine:
  assumes "truthy (fromNode st)" and "truthy (toNode st)"
  shows "(draw < simulateFailureRate st \<longrightarrow>
            submitRequest st draw
              = (st\<lparr>roundRobinState := roundRobinState st + 1\<rparr>, [],
                 Some (BackendFailure (roundRobinState st mod 3))))
       \<and> (simulateFailureRate st = 1 \<and> draw < 1 \<longrightarrow>
            submitRequest st draw
              = (st\<lparr>roundRobinState := roundRobinState st + 1\<rparr>, [],
                 Some (BackendFailure (roundRobinState st mod 3))))"
  using assms submit_failure[of st draw] by simp

theorem simulated_failure_skips_engine_witness:
  "truthy (Some ''A'') \<and> truthy (Some ''G'')
   \<and> submitRequest
        \<lparr>roundRobinState = 4, fromNode = Some ''A'', toNode = Some ''G'', simulateFailureRate = 1\<rparr>
        (1 / 2)
      = (\<lparr>roundRobinState = 5, fromNode = Some ''A'', toNode = Some ''G'', simulateFailureRate = 1\<rparr>,
         [], Some (BackendFailure 1))"
proof -
  have t: "truthy (Some ''A'')" "truthy (Some ''G'')" by (simp_all add: truthy_def)
  show ?thesis
    using t simulated_failure_skips_engine[of
        "\<lparr>roundRobinState = 4, fromNode = Some ''A'', toNode = Some ''G'', simulateFailureRate = 1\<rparr>"
        "1 / 2"]
    by simp
qed

text \<open>
  Claim C5. Over any sequence of calls the counter grows by the number of calls in which
  both nodes are given, whatever those calls end in. A call in which a node is missing ends
  in the request for both nodes, with the state unchanged and no call of the engine; a call
  in which both are given advances the counter by exactly one.
\<close>

theorem counter_advances_per_dispatch:
  "roundRobinState (submitAll st calls)
     = roundRobinState st + length (filter (\<lambda>(f, t, rate, draw). truthy f \<and> truthy t) calls)
   \<and> (\<not> (truthy (fromNode st) \<and> truthy (toNode st)) \<longrightarrow>
        submitRequest st draw = (st, [], Some MissingEndpoint))
   \<and> (truthy (fromNode st) \<and> truthy (toNode st) \<longrightarrow>
        roundRobinState (fst (submitRequest st draw)) = roundRobinState st + 1)"
  using submitAll_counter[of st calls] submit_counter[of st draw]
  by (auto simp: submitRequest_def)

theorem counter_advances_per_dispatch_witness:
  "roundRobinState
     (submitAll \<lparr>roundRobinState = 0, fromNode = None, toNode = None, simulateFailureRate = 0\<rparr>
        [(Some ''A'', Some ''G'', 1, 1 / 2), (None, Some ''G'', 0, 1 / 2),
         (Some ''A'', Some ''B'', 0, 1 / 2), (Some ''A'', Some [], 0, 1 / 2)]) = 2"
  using counter_advances_per_dispatch[of
      "\<lparr>roundRobinState = 0, fromNode = None, toNode = None, simulateFailureRate = 0\<rparr>"
      "[(Some ''A'', Some ''G'', 1, 1 / 2), (None, Some ''G'', 0, 1 / 2),
        (Some ''A'', Some ''B'', 0, 1 / 2), (Some ''A'', Some [], 0, 1 / 2)]"]
  by (simp add: truthy_def)

section \<open>The engine: first iteration, equal endpoints, unknown nodes\<close>

lemma push_empty: "push [] x = [x]"
  by (simp add: push_def bubbleUp_def Let_def bubbleUp_loop.simps)

lemma pop_single: "pop [x] = (Some x, [])"
  by (simp add: pop_def Let_def)

lemma fold_init_dist:
  "fold (\<lambda>n m. m(n \<mapsto> Infinity)) ks m0 v = (if v \<in> set ks then Some Infinity else m0 v)"
  by (induction ks arbitrary: m0) auto

lemma init_pq: "pq (init g src) = [(0, src)]"
  by (simp add: init_def push_empty)

lemma init_prev: "prev (init g src) = Map.empty"
  by (simp add: init_def)

lemma init_dist:
  "distv (init g src) v
     = (if v = src then Some (Num 0) else if v \<in> keys g then Some Infinity else None)"
  by (simp add: init_def fold_init_dist keys_def)

lemma map_of_keys: "map_of g u = None \<longleftrightarrow> u \<notin> keys g"
  by (simp add: keys_def map_of_eq_None_iff)

lemma loop_first_same:
  "dijkstra_loop g s (init g s) = Some (Inr ((init g s)\<lparr>pq := []\<rparr>))"
  by (subst dijkstra_loop.simps) (simp add: init_pq pop_single init_dist d_gt_def)

lemma loop_first_unknown_src:
  assumes "src \<notin> keys g" "src \<noteq> dst"
  shows "dijkstra_loop g dst (init g src) = Some (Inl TypeError)"
proof -
  have "map_of g src = None" using assms(1) by (simp add: map_of_keys)
  then show ?thesis using assms(2)
    by (subst dijkstra_loop.simps) (simp add: init_pq pop_single init_dist d_gt_def)
qed

lemma reconstruct_single:
  "n \<noteq> [] \<Longrightarrow> prv n = None \<Longrightarrow> reconstruct prv (Some n) path = Some (n # path)"
  by (subst reconstruct.simps, simp, subst reconstruct.simps, simp)

lemma dijkstra_same:
  assumes "s \<noteq> []"
  shows "dijkstra g s s = Some (Inr (Found [s] (Some (Num 0))))"
  using assms
  by (simp add: dijkstra_def loop_first_same init_dist init_prev reconstruct_single)

lemma dijkstra_unknown_src:
  assumes "src \<notin> keys g" "src \<noteq> dst"
  shows "dijkstra g src dst = Some (Inl TypeError)"
  using assms by (simp add: dijkstra_def loop_first_unknown_src)

text \<open>
  Claim C6, as stated, fails for the empty string: it is a valid key of a graph object, but
  it is falsy, so the loop that rebuilds the path stops before adding it and the path
  comes out empty.
\<close>

theorem same_endpoint_empty_string_counterexample:
  "[] \<in> keys [([], [])] \<and> dijkstra [([], [])] [] [] = Some (Inr (Found [] (Some (Num 0))))"
  by (simp add: keys_def) code_simp

text \<open>
  Claim C6, amended. For every graph and every node \<open>s\<close> of it other than the empty
  string and \<open>__proto__\<close>, the engine answers the request from \<open>s\<close> to \<open>s\<close> with the
  path \<open>[s]\<close> and the distance 0. (The key \<open>__proto__\<close> is left out because
  \<open>dist[src] = 0\<close> stores nothing under that name, so that the distance returned is not
  the number written.)
\<close>

theorem same_endpoint_found:
  assumes "s \<in> keys g" and "s \<noteq> []" and "s \<noteq> ''__proto__''"
  shows "dijkstra g s s = Some (Inr (Found [s] (Some (Num 0))))"
  using assms(2) by (rule dijkstra_same)

theorem same_endpoint_found_witness:
  "''A'' \<in> keys server1 \<and> ''A'' \<noteq> [] \<and> ''A'' \<noteq> ''__proto__''
   \<and> dijkstra server1 ''A'' ''A'' = Some (Inr (Found [''A''] (Some (Num 0))))"
proof -
  have k: "''A'' \<in> keys server1" by (simp add: keys_def server1_def)
  have n: "''A'' \<noteq> []" "''A'' \<noteq> ''__proto__''" by simp_all
  show ?thesis using k n same_endpoint_found[OF k n] by simp
qed

section \<open>Termination of the engine's loop\<close>

lemma tinvI:
  assumes "heap_ok (pq st)" "distinct (pq st)" "finite (dom (distv st))"
    and "\<And>d u. (d, u) \<in> set (pq st) \<Longrightarrow> \<exists>du. distv st u = Some (Num du) \<and> du \<le> d"
    and "\<And>v dv d u. distv st v = Some (Num dv) \<Longrightarrow> (dv, v) \<notin> set (pq st)
            \<Longrightarrow> (d, u) \<in> set (pq st) \<Longrightarrow> dv \<le> d"
  shows "tinv st"
  unfolding tinv_def using assms by blast

lemma tinvD:
  assumes "tinv st"
  shows "heap_ok (pq st)" "distinct (pq st)" "finite (dom (distv st))"
    and "\<And>d u. (d, u) \<in> set (pq st) \<Longrightarrow> \<exists>du. distv st u = Some (Num du) \<and> du \<le> d"
    and "\<And>v dv d u. distv st v = Some (Num dv) \<Longrightarrow> (dv, v) \<notin> set (pq st)
            \<Longrightarrow> (d, u) \<in> set (pq st) \<Longrightarrow> dv \<le> d"
  using assms unfolding tinv_def by blast+

lemma rinvI:
  assumes "heap_ok (pq st)" "distinct (pq st)" "finite (dom (distv st))"
    and "\<And>d' w. (d', w) \<in> set (pq st) \<Longrightarrow> d \<le> d'"
    and "\<And>d' w. (d', w) \<in> set (pq st) \<Longrightarrow> \<exists>dw. distv st w = Some (Num dw) \<and> dw \<le> d'"
    and "\<And>v dv. distv st v = Some (Num dv) \<Longrightarrow> (dv, v) \<notin> set (pq st) \<Longrightarrow> dv \<le> d"
  shows "rinv d st"
  unfolding rinv_def using assms by blast

lemma rinvD:
  assumes "rinv d st"
  shows "heap_ok (pq st)" "distinct (pq st)" "finite (dom (distv st))"
    and "\<And>d' w. (d', w) \<in> set (pq st) \<Longrightarrow> d \<le> d'"
    and "\<And>d' w. (d', w) \<in> set (pq st) \<Longrightarrow> \<exists>dw. distv st w = Some (Num dw) \<and> dw \<le> d'"
    and "\<And>v dv. distv st v = Some (Num dv) \<Longrightarrow> (dv, v) \<notin> set (pq st) \<Longrightarrow> dv \<le> d"
  using assms unfolding rinv_def by blast+

lemma set_push: "set (push h x) = insert x (set h)"
proof -
  have "set_mset (mset (push h x)) = set_mset (add_mset x (mset h))"
    by (simp only: push_mset)
  then show ?thesis by simp
qed

lemma pop_None: "pop h = (None, h') \<Longrightarrow> h = []"
  by (auto simp: pop_def Let_def split: if_splits)

lemma pop_Some:
  assumes "heap_ok h" and "pop h = (Some x, h')"
  shows "heap_ok h'" and "mset h = add_mset x (mset h')" and "\<forall>e \<in> set h. fst x \<le> fst e"
proof -
  have ne: "h \<noteq> []" using assms(2) by (auto simp: pop_def)
  then obtain h2 where p: "pop h = (Some (h ! 0), h2)" "heap_ok h2"
      "mset h = add_mset (h ! 0) (mset h2)"
    using pop_nonempty[OF assms(1)] by blast
  then have e: "x = h ! 0" "h' = h2" using assms(2) by simp_all
  show "heap_ok h'" using p e by simp
  show "mset h = add_mset x (mset h')" using p e by simp
  show "\<forall>e \<in> set h. fst x \<le> fst e" using heap_ok_hd_min[OF assms(1)] e by simp
qed

lemma pop_Some_set:
  assumes "heap_ok h" and "distinct h" and "pop h = (Some x, h')"
  shows "set h = insert x (set h')" and "x \<notin> set h'" and "distinct h'"
    and "length h = Suc (length h')"
proof -
  have m: "mset h = mset (x # h')" using pop_Some(2)[OF assms(1,3)] by simp
  show "set h = insert x (set h')" using mset_eq_setD[OF m] by simp
  have "distinct (x # h')" using mset_eq_imp_distinct_iff[OF m] assms(2) by simp
  then show "x \<notin> set h'" and "distinct h'" by simp_all
  show "length h = Suc (length h')" using mset_eq_length[OF m] by simp
qed

lemma pop_cases:
  obtains (empty) "h = []" "pop h = (None, [])"
        | (entry) x h' where "pop h = (Some x, h')"
proof (cases "h = []")
  case True
  then show ?thesis using empty by (simp add: pop_def)
next
  case False
  then have "fst (pop h) = Some (h ! 0)" by (simp add: pop_def Let_def)
  then have "pop h = (Some (h ! 0), snd (pop h))" by (metis prod.collapse)
  then show ?thesis using entry by blast
qed

lemma rinv_tinv: "rinv d st \<Longrightarrow> tinv st"
proof (rule tinvI)
  assume r: "rinv d st"
  show "heap_ok (pq st)" "distinct (pq st)" "finite (dom (distv st))" using rinvD(1-3)[OF r] .
  show "\<exists>du. distv st u = Some (Num du) \<and> du \<le> d'" if "(d', u) \<in> set (pq st)" for d' u
    using rinvD(5)[OF r that] .
  show "dv \<le> d'" if "distv st v = Some (Num dv)" "(dv, v) \<notin> set (pq st)" "(d', u) \<in> set (pq st)"
    for v dv d' u
    using rinvD(6)[OF r that(1,2)] rinvD(4)[OF r that(3)] by linarith
qed

lemma finite_unsettled: "finite (dom (distv st)) \<Longrightarrow> finite (unsettled st)"
  by (rule finite_subset[of _ "dom (distv st)"]) (auto simp: unsettled_def)

lemma stale_step:
  assumes inv: "tinv st" and p: "pop (pq st) = (Some (d, u), h)" and s: "d_gt d (distv st u)"
  shows "tinv (st\<lparr>pq := h\<rparr>)" and "unsettled (st\<lparr>pq := h\<rparr>) = unsettled st"
    and "length h < length (pq st)"
proof -
  note ps = pop_Some_set[OF tinvD(1,2)[OF inv] p]
  obtain du where du: "distv st u = Some (Num du)" "du < d"
    using s by (auto simp: d_gt_def split: option.splits num.splits)
  have mem: "(dv, v) \<in> set h \<longleftrightarrow> (dv, v) \<in> set (pq st)" if "distv st v = Some (Num dv)" for dv v
    using ps(1) du that by auto
  show "tinv (st\<lparr>pq := h\<rparr>)"
  proof (rule tinvI)
    show "heap_ok (pq (st\<lparr>pq := h\<rparr>))" using pop_Some(1)[OF tinvD(1)[OF inv] p] by simp
    show "distinct (pq (st\<lparr>pq := h\<rparr>))" using ps(3) by simp
    show "finite (dom (distv (st\<lparr>pq := h\<rparr>)))" using tinvD(3)[OF inv] by simp
    show "\<exists>du. distv (st\<lparr>pq := h\<rparr>) w = Some (Num du) \<and> du \<le> d'"
      if "(d', w) \<in> set (pq (st\<lparr>pq := h\<rparr>))" for d' w
      using tinvD(4)[OF inv, of d' w] that ps(1) by simp
    show "dv \<le> d'"
      if "distv (st\<lparr>pq := h\<rparr>) v = Some (Num dv)" "(dv, v) \<notin> set (pq (st\<lparr>pq := h\<rparr>))"
        "(d', w) \<in> set (pq (st\<lparr>pq := h\<rparr>))" for v dv d' w
    proof -
      have "(dv, v) \<notin> set (pq st)" using mem[of v dv] that by simp
      moreover have "(d', w) \<in> set (pq st)" using that ps(1) by simp
      ultimately show ?thesis using tinvD(5)[OF inv, of v dv d' w] that by simp
    qed
  qed
  show "unsettled (st\<lparr>pq := h\<rparr>) = unsettled st"
    unfolding unsettled_def using mem by auto
  show "length h < length (pq st)" using ps(4) by simp
qed

lemma live_step:
  assumes inv: "tinv st" and p: "pop (pq st) = (Some (d, u), h)" and s: "\<not> d_gt d (distv st u)"
  shows "rinv d (st\<lparr>pq := h\<rparr>)" and "distv st u = Some (Num d)"
    and "unsettled (st\<lparr>pq := h\<rparr>) = unsettled st - {u}" and "u \<in> unsettled st"
    and "(d, u) \<in> set (pq st)" and "(d, u) \<notin> set h" and "\<And>d' w. (d', w) \<in> set (pq st) \<Longrightarrow> d \<le> d'"
    and "set (pq st) = insert (d, u) (set h)"
proof -
  note ps = pop_Some_set[OF tinvD(1,2)[OF inv] p]
  show mn: "d \<le> d'" if "(d', w) \<in> set (pq st)" for d' w
    using pop_Some(3)[OF tinvD(1)[OF inv] p] that by auto
  show "set (pq st) = insert (d, u) (set h)" by (rule ps(1))
  show in_h: "(d, u) \<in> set (pq st)" using ps(1) by simp
  show "(d, u) \<notin> set h" by (rule ps(2))
  obtain du where du: "distv st u = Some (Num du)" "du \<le> d"
    using tinvD(4)[OF inv in_h] by blast
  then have "du = d" using s by (auto simp: d_gt_def)
  then show du': "distv st u = Some (Num d)" using du by simp
  show "u \<in> unsettled st" using du' in_h by (auto simp: unsettled_def)
  have mem: "(dv, v) \<in> set h \<longleftrightarrow> (dv, v) \<in> set (pq st)" if "v \<noteq> u" for dv v
    using ps(1) that by auto
  show "unsettled (st\<lparr>pq := h\<rparr>) = unsettled st - {u}"
  proof (rule set_eqI)
    fix v
    show "v \<in> unsettled (st\<lparr>pq := h\<rparr>) \<longleftrightarrow> v \<in> unsettled st - {u}"
    proof (cases "v = u")
      case True
      then show ?thesis using du' ps(2) by (auto simp: unsettled_def)
    next
      case False
      then show ?thesis using mem[OF False] by (auto simp: unsettled_def)
    qed
  qed
  show "rinv d (st\<lparr>pq := h\<rparr>)"
  proof (rule rinvI)
    show "heap_ok (pq (st\<lparr>pq := h\<rparr>))" using pop_Some(1)[OF tinvD(1)[OF inv] p] by simp
    show "distinct (pq (st\<lparr>pq := h\<rparr>))" using ps(3) by simp
    show "finite (dom (distv (st\<lparr>pq := h\<rparr>)))" using tinvD(3)[OF inv] by simp
    show "d \<le> d'" if "(d', w) \<in> set (pq (st\<lparr>pq := h\<rparr>))" for d' w
      using mn[of d' w] that ps(1) by simp
    show "\<exists>dw. distv (st\<lparr>pq := h\<rparr>) w = Some (Num dw) \<and> dw \<le> d'"
      if "(d', w) \<in> set (pq (st\<lparr>pq := h\<rparr>))" for d' w
      using tinvD(4)[OF inv, of d' w] that ps(1) by simp
    show "dv \<le> d"
      if a: "distv (st\<lparr>pq := h\<rparr>) v = Some (Num dv)" "(dv, v) \<notin> set (pq (st\<lparr>pq := h\<rparr>))" for v dv
    proof (cases "(dv, v) \<in> set (pq st)")
      case True
      then have "(dv, v) = (d, u)" using a ps(1) by auto
      then show ?thesis by simp
    next
      case False
      then show ?thesis using tinvD(5)[OF inv _ False in_h] a by simp
    qed
  qed
qed

lemma distinct_push: "distinct h \<Longrightarrow> x \<notin> set h \<Longrightarrow> distinct (push h x)"
proof -
  assume a: "distinct h" "x \<notin> set h"
  have "mset (push h x) = mset (x # h)" by (simp add: push_mset)
  then have "distinct (push h x) = distinct (x # h)" by (rule mset_eq_imp_distinct_iff)
  then show ?thesis using a by simp
qed

lemma alt_lt_cases:
  assumes "alt_lt a x"
  obtains (inf) "x = Some Infinity" | (fin) y where "x = Some (Num y)" "a < y"
  using assms by (auto simp: alt_lt_def split: option.splits num.splits)

lemma relax_edge_skip:
  "\<not> alt_lt (d + cost e) (distv s (to e)) \<Longrightarrow> relax_edge u d e s = s"
  by (simp add: relax_edge_def Let_def)

lemma relax_edge_update:
  "alt_lt (d + cost e) (distv s (to e)) \<Longrightarrow>
     relax_edge u d e s
       = s\<lparr>distv := (distv s)(to e \<mapsto> Num (d + cost e)),
            prev := (prev s)(to e \<mapsto> u),
            pq := push (pq s) (d + cost e, to e)\<rparr>"
  by (simp add: relax_edge_def Let_def)

lemma rinv_fresh:
  assumes r: "rinv d s" and lt: "alt_lt a (distv s v)"
  shows "(a, v) \<notin> set (pq s)"
proof
  assume "(a, v) \<in> set (pq s)"
  then obtain dw where "distv s v = Some (Num dw)" "dw \<le> a" using rinvD(5)[OF r] by blast
  then show False using lt by (auto simp: alt_lt_def)
qed

lemma rinv_target_unsettled:
  assumes r: "rinv d s" and lt: "alt_lt a (distv s v)" and da: "d \<le> a"
  shows "v \<in> unsettled s"
  using lt
proof (cases rule: alt_lt_cases)
  case inf
  then show ?thesis by (simp add: unsettled_def)
next
  case (fin y)
  have "(y, v) \<in> set (pq s)"
  proof (rule ccontr)
    assume "(y, v) \<notin> set (pq s)"
    then have "y \<le> d" using rinvD(6)[OF r fin(1)] by simp
    then show False using fin(2) da by simp
  qed
  then show ?thesis using fin(1) by (auto simp: unsettled_def)
qed

lemma rinv_edge:
  assumes r: "rinv d s" and c: "0 \<le> cost e"
  shows "rinv d (relax_edge u d e s)"
    and "unsettled (relax_edge u d e s) = unsettled s"
proof -
  define v where "v = to e"
  define a where "a = d + cost e"
  have da: "d \<le> a" using c by (simp add: a_def)
  show "rinv d (relax_edge u d e s)"
  proof (cases "alt_lt (d + cost e) (distv s (to e))")
    case False
    then show ?thesis using r by (simp add: relax_edge_skip)
  next
    case True
    define s' where "s' = s\<lparr>distv := (distv s)(v \<mapsto> Num a), prev := (prev s)(v \<mapsto> u),
        pq := push (pq s) (a, v)\<rparr>"
    have eq: "relax_edge u d e s = s'" using True by (simp add: relax_edge_update s'_def v_def a_def)
    have lt: "alt_lt a (distv s v)" using True by (simp add: a_def v_def)
    have fresh: "(a, v) \<notin> set (pq s)" using rinv_fresh[OF r lt] .
    have pqs: "set (pq s') = insert (a, v) (set (pq s))" by (simp add: s'_def set_push)
    have dv: "distv s' v = Some (Num a)" by (simp add: s'_def)
    have dn: "distv s' x = distv s x" if "x \<noteq> v" for x using that by (simp add: s'_def)
    have "rinv d s'"
    proof (rule rinvI)
      show "heap_ok (pq s')" using rinvD(1)[OF r] by (simp add: s'_def push_ok)
      show "distinct (pq s')" using rinvD(2)[OF r] fresh by (simp add: s'_def distinct_push)
      show "finite (dom (distv s'))" using rinvD(3)[OF r] by (simp add: s'_def)
      show "d \<le> d'" if "(d', w) \<in> set (pq s')" for d' w
        using that pqs da rinvD(4)[OF r, of d' w] by auto
      show "\<exists>dw. distv s' w = Some (Num dw) \<and> dw \<le> d'" if m: "(d', w) \<in> set (pq s')" for d' w
      proof (cases "w = v")
        case True
        show ?thesis
        proof (cases "(d', w) = (a, v)")
          case True
          then show ?thesis using dv by simp
        next
          case False
          then have "(d', v) \<in> set (pq s)" using m pqs True by auto
          then obtain dw where "distv s v = Some (Num dw)" "dw \<le> d'"
            using rinvD(5)[OF r] by blast
          then have "a \<le> d'" using lt by (auto simp: alt_lt_def)
          then show ?thesis using dv True by simp
        qed
      next
        case False
        then have "(d', w) \<in> set (pq s)" using m pqs by auto
        then show ?thesis using rinvD(5)[OF r] dn[OF False] by simp
      qed
      show "dv \<le> d" if "distv s' x = Some (Num dv)" "(dv, x) \<notin> set (pq s')" for x dv
      proof (cases "x = v")
        case True
        then show ?thesis using that dv pqs by auto
      next
        case False
        then show ?thesis using that dn[OF False] pqs rinvD(6)[OF r, of x dv] by auto
      qed
    qed
    then show ?thesis by (simp add: eq)
  qed
  show "unsettled (relax_edge u d e s) = unsettled s"
  proof (cases "alt_lt (d + cost e) (distv s (to e))")
    case False
    then show ?thesis by (simp add: relax_edge_skip)
  next
    case True
    define s' where "s' = s\<lparr>distv := (distv s)(v \<mapsto> Num a), prev := (prev s)(v \<mapsto> u),
        pq := push (pq s) (a, v)\<rparr>"
    have eq: "relax_edge u d e s = s'" using True by (simp add: relax_edge_update s'_def v_def a_def)
    have lt: "alt_lt a (distv s v)" using True by (simp add: a_def v_def)
    have pqs: "set (pq s') = insert (a, v) (set (pq s))" by (simp add: s'_def set_push)
    have dv: "distv s' v = Some (Num a)" by (simp add: s'_def)
    have dn: "distv s' x = distv s x" if "x \<noteq> v" for x using that by (simp add: s'_def)
    have vu: "v \<in> unsettled s" using rinv_target_unsettled[OF r lt da] .
    have "x \<in> unsettled s' \<longleftrightarrow> x \<in> unsettled s" for x
    proof (cases "x = v")
      case True
      then show ?thesis using vu dv pqs by (auto simp: unsettled_def)
    next
      case False
      then show ?thesis using dn[OF False] pqs by (auto simp: unsettled_def)
    qed
    then show ?thesis using eq by auto
  qed
qed

lemma rinv_relax:
  assumes "rinv d s" and "\<forall>e \<in> set es. 0 \<le> cost e"
  shows "rinv d (relax u d es s) \<and> unsettled (relax u d es s) = unsettled s"
  using assms
proof (induction es arbitrary: s)
  case Nil
  then show ?case by (simp add: relax_def)
next
  case (Cons e es)
  have c: "0 \<le> cost e" using Cons.prems(2) by simp
  have "rinv d (relax_edge u d e s)" "unsettled (relax_edge u d e s) = unsettled s"
    using rinv_edge[OF Cons.prems(1) c] by blast+
  moreover have "relax u d (e # es) s = relax u d es (relax_edge u d e s)"
    by (simp add: relax_def)
  ultimately show ?case using Cons.IH[of "relax_edge u d e s"] Cons.prems(2) by simp
qed

lemma nonneg_edges:
  assumes "nonneg_costs g" and "map_of g u = Some es"
  shows "\<forall>e \<in> set es. 0 \<le> cost e"
proof -
  have "(u, es) \<in> set g" using assms(2) by (rule map_of_SomeD)
  then show ?thesis using assms(1) by (auto simp: nonneg_costs_def)
qed

lemma loop_rule:
  fixes J :: "dstate \<Rightarrow> bool" and Q :: "error + dstate \<Rightarrow> bool"
  assumes nn: "nonneg_costs g"
    and q_empty: "\<And>st. tinv st \<Longrightarrow> J st \<Longrightarrow> pq st = [] \<Longrightarrow> Q (Inr st)"
    and j_stale: "\<And>st d u h. tinv st \<Longrightarrow> J st \<Longrightarrow> pop (pq st) = (Some (d, u), h)
                  \<Longrightarrow> d_gt d (distv st u) \<Longrightarrow> J (st\<lparr>pq := h\<rparr>)"
    and q_hit: "\<And>st d h. tinv st \<Longrightarrow> J st \<Longrightarrow> pop (pq st) = (Some (d, dst), h)
                  \<Longrightarrow> \<not> d_gt d (distv st dst) \<Longrightarrow> Q (Inr (st\<lparr>pq := h\<rparr>))"
    and q_err: "\<And>st d u h. tinv st \<Longrightarrow> J st \<Longrightarrow> pop (pq st) = (Some (d, u), h)
                  \<Longrightarrow> \<not> d_gt d (distv st u) \<Longrightarrow> u \<noteq> dst \<Longrightarrow> map_of g u = None
                  \<Longrightarrow> Q (Inl TypeError)"
    and j_rel: "\<And>st d u h es. tinv st \<Longrightarrow> J st \<Longrightarrow> pop (pq st) = (Some (d, u), h)
                  \<Longrightarrow> \<not> d_gt d (distv st u) \<Longrightarrow> u \<noteq> dst \<Longrightarrow> map_of g u = Some es
                  \<Longrightarrow> J (relax u d es (st\<lparr>pq := h\<rparr>))"
  shows "tinv st \<Longrightarrow> J st \<Longrightarrow> \<exists>r. dijkstra_loop g dst st = Some r \<and> Q r"
proof (induction st rule: wf_induct_rule[OF wf_measures[of "[\<lambda>st. card (unsettled st), \<lambda>st. length (pq st)]"]])
  case (1 st)
  note inv = "1.prems"(1) and J = "1.prems"(2)
  show ?case
  proof (cases "pq st" rule: pop_cases)
    case empty
    then show ?thesis using q_empty[OF inv J]
      by (subst dijkstra_loop.simps) simp
  next
    case (entry x h)
    obtain d u where x: "x = (d, u)" by (cases x)
    note p = entry[unfolded x]
    let ?st1 = "st\<lparr>pq := h\<rparr>"
    show ?thesis
    proof (cases "d_gt d (distv st u)")
      case True
      note ss = stale_step[OF inv p True]
      have "(?st1, st) \<in> measures [\<lambda>st. card (unsettled st), \<lambda>st. length (pq st)]"
        using ss(2,3) by simp
      then have "\<exists>r. dijkstra_loop g dst ?st1 = Some r \<and> Q r"
        using "1.IH"[of ?st1] ss(1) j_stale[OF inv J p True] by blast
      then show ?thesis using p True by (subst dijkstra_loop.simps) simp
    next
      case False
      note ls = live_step[OF inv p False]
      show ?thesis
      proof (cases "u = dst")
        case True
        then show ?thesis using q_hit[OF inv J p[unfolded True]] p False
          by (subst dijkstra_loop.simps) simp
      next
        case ne: False
        show ?thesis
        proof (cases "map_of g u")
          case None
          then show ?thesis using q_err[OF inv J p False ne None] p False ne
            by (subst dijkstra_loop.simps) simp
        next
          case (Some es)
          let ?st2 = "relax u d es ?st1"
          have rr: "rinv d ?st2" "unsettled ?st2 = unsettled ?st1"
            using rinv_relax[OF ls(1) nonneg_edges[OF nn Some]] by blast+
          have "finite (unsettled st)" using tinvD(3)[OF inv] by (rule finite_unsettled)
          then have "card (unsettled st - {u}) < card (unsettled st)"
            using ls(4) by (rule card_Diff1_less)
          then have "(?st2, st) \<in> measures [\<lambda>st. card (unsettled st), \<lambda>st. length (pq st)]"
            using rr(2) ls(3) by simp
          then have "\<exists>r. dijkstra_loop g dst ?st2 = Some r \<and> Q r"
            using "1.IH"[of ?st2] rinv_tinv[OF rr(1)] j_rel[OF inv J p False ne Some] by blast
          then show ?thesis using p False ne Some by (subst dijkstra_loop.simps) simp
        qed
      qed
    qed
  qed
qed

lemma tinv_init: "tinv (init g src)"
proof (rule tinvI)
  show "heap_ok (pq (init g src))" by (simp add: init_pq heap_ok_def)
  show "distinct (pq (init g src))" by (simp add: init_pq)
  have "dom (distv (init g src)) \<subseteq> insert src (keys g)"
    by (auto simp: init_dist split: if_splits)
  moreover have "finite (insert src (keys g))" by (simp add: keys_def)
  ultimately show "finite (dom (distv (init g src)))" by (rule finite_subset)
  show "\<exists>du. distv (init g src) u = Some (Num du) \<and> du \<le> d" if "(d, u) \<in> set (pq (init g src))" for d u
    using that by (simp add: init_pq init_dist)
  show "dv \<le> d" if "distv (init g src) v = Some (Num dv)" "(dv, v) \<notin> set (pq (init g src))"
    "(d, u) \<in> set (pq (init g src))" for v dv d u
    using that by (auto simp: init_pq init_dist split: if_splits)
qed

text \<open>
  The loop ends whenever the edge costs are non-negative, whatever the source and the
  destination, and whether or not every edge endpoint is a key.
\<close>

lemma loop_terminates:
  assumes "nonneg_costs g"
  shows "\<exists>r. dijkstra_loop g dst (init g src) = Some r"
proof -
  have "\<exists>r. dijkstra_loop g dst (init g src) = Some r \<and> True"
    by (rule loop_rule[where J = "\<lambda>_. True" and Q = "\<lambda>_. True", OF assms]) (simp_all add: tinv_init)
  then show ?thesis by simp
qed

section \<open>Requests that name a node the graph does not have\<close>

lemma relax_edge_frame:
  assumes "distv s x = None"
  shows "distv (relax_edge u d e s) x = None" and "prev (relax_edge u d e s) x = prev s x"
proof -
  have "to e \<noteq> x" if "alt_lt (d + cost e) (distv s (to e))"
    using that assms by (auto simp: alt_lt_def)
  then show "distv (relax_edge u d e s) x = None" and "prev (relax_edge u d e s) x = prev s x"
    using assms by (auto simp: relax_edge_def Let_def)
qed

lemma relax_edge_dom: "dom (distv (relax_edge u d e s)) = dom (distv s)"
proof (cases "alt_lt (d + cost e) (distv s (to e))")
  case True
  then have "to e \<in> dom (distv s)" by (auto simp: alt_lt_def split: option.splits)
  then show ?thesis using True by (auto simp: relax_edge_update)
next
  case False
  then show ?thesis by (simp add: relax_edge_skip)
qed

lemma relax_frame:
  assumes "distv s x = None"
  shows "distv (relax u d es s) x = None \<and> prev (relax u d es s) x = prev s x"
  using assms
proof (induction es arbitrary: s)
  case Nil
  then show ?case by (simp add: relax_def)
next
  case (Cons e es)
  have "relax u d (e # es) s = relax u d es (relax_edge u d e s)" by (simp add: relax_def)
  then show ?case using Cons.IH[of "relax_edge u d e s"] relax_edge_frame[OF Cons.prems, of u d e]
    by simp
qed

lemma relax_dom: "dom (distv (relax u d es s)) = dom (distv s)"
proof (induction es arbitrary: s)
  case Nil
  then show ?case by (simp add: relax_def)
next
  case (Cons e es)
  have "relax u d (e # es) s = relax u d es (relax_edge u d e s)" by (simp add: relax_def)
  then show ?case using Cons.IH[of "relax_edge u d e s"] relax_edge_dom[of u d e s] by simp
qed

lemma loop_unknown_dst:
  assumes nn: "nonneg_costs g" and src: "src \<in> keys g" and dst: "dst \<notin> keys g"
  shows "\<exists>st. dijkstra_loop g dst (init g src) = Some (Inr st)
            \<and> distv st dst = None \<and> prev st dst = None"
proof -
  define J where "J = (\<lambda>st :: dstate. dom (distv st) \<subseteq> keys g \<and> distv st dst = None \<and> prev st dst = None)"
  define Q where "Q = (\<lambda>r :: error + dstate. \<exists>st. r = Inr st \<and> distv st dst = None \<and> prev st dst = None)"
  have "\<exists>r. dijkstra_loop g dst (init g src) = Some r \<and> Q r"
  proof (rule loop_rule[where J = J and Q = Q, OF nn])
    show "tinv (init g src)" by (rule tinv_init)
    show "J (init g src)" using src dst
      by (auto simp: J_def init_dist init_prev split: if_splits)
  next
    fix st assume "J st"
    then show "Q (Inr st)" by (simp add: J_def Q_def)
  next
    fix st d u h assume "J st"
    then show "J (st\<lparr>pq := h\<rparr>)" by (simp add: J_def)
  next
    fix st d h
    assume inv: "tinv st" and J: "J st" and p: "pop (pq st) = (Some (d, dst), h)"
      and s: "\<not> d_gt d (distv st dst)"
    have "distv st dst = Some (Num d)" using live_step(2)[OF inv p s] .
    then show "Q (Inr (st\<lparr>pq := h\<rparr>))" using J by (simp add: J_def)
  next
    fix st d u h
    assume inv: "tinv st" and J: "J st" and p: "pop (pq st) = (Some (d, u), h)"
      and s: "\<not> d_gt d (distv st u)" and n: "map_of g u = None"
    have "distv st u = Some (Num d)" using live_step(2)[OF inv p s] .
    then have "u \<in> keys g" using J by (auto simp: J_def)
    then show "Q (Inl TypeError)" using n by (simp add: map_of_keys)
  next
    fix st d u h es assume "J st"
    then show "J (relax u d es (st\<lparr>pq := h\<rparr>))"
      using relax_frame[of "st\<lparr>pq := h\<rparr>" dst u d es] relax_dom[of u d es "st\<lparr>pq := h\<rparr>"]
      by (simp add: J_def)
  qed
  then show ?thesis by (auto simp: Q_def)
qed

lemma submit_threw:
  assumes "truthy (fromNode st)" and "truthy (toNode st)" and "\<not> draw < simulateFailureRate st"
    and "dijkstra (REGIONAL_GRAPHS ! (roundRobinState st mod 3)) (the (fromNode st)) (the (toNode st))
           = Some (Inl e)"
  shows "snd (snd (submitRequest st draw)) = Some (Threw (roundRobinState st mod 3) e)"
  using assms by (simp add: submitRequest_def selectBackend_def Let_def)

text \<open>
  Claim C2, as stated, fails: the code has no check for unknown nodes and no \<open>UnknownNode\<close>
  error. With a known source and an unknown destination the engine does not fail at all:
  on Server 1's graph the request from A to Z comes back as a route, the path \<open>[Z]\<close> with an
  undefined distance, and \<open>submitRequest\<close> logs it as a route found.
\<close>

theorem unknown_destination_counterexample:
  "''Z'' \<notin> keys server1
   \<and> dijkstra server1 ''A'' ''Z'' = Some (Inr (Found [''Z''] None))
   \<and> snd (snd (submitRequest
        \<lparr>roundRobinState = 0, fromNode = Some ''A'', toNode = Some ''Z'', simulateFailureRate = 0\<rparr>
        (1 / 2))) = Some (Route 0 [''Z''] None)"
proof -
  have k: "''Z'' \<notin> keys server1" by (simp add: keys_def server1_def)
  have d: "dijkstra server1 ''A'' ''Z'' = Some (Inr (Found [''Z''] None))" by code_simp
  have "snd (snd (submitRequest
        \<lparr>roundRobinState = 0, fromNode = Some ''A'', toNode = Some ''Z'', simulateFailureRate = 0\<rparr>
        (1 / 2))) = Some (Route 0 [''Z''] None)"
    using d by (simp add: submitRequest_def selectBackend_def REGIONAL_GRAPHS_def truthy_def Let_def)
  then show ?thesis using k d by simp
qed

text \<open>
  Claim C2, amended. When the source is not a key of the graph and differs from the
  destination, \<open>dijkstra\<close> fails: it throws a \<open>TypeError\<close> on iterating \<open>graph[src]\<close>
  (the code has no error named \<open>UnknownNode\<close>), and \<open>submitRequest\<close> ends with that
  exception, not with no route. What the code does when only the destination is unknown is
  shown by the counterexample and is not part of this statement.
\<close>

theorem unknown_source_throws:
  "(src \<notin> keys g \<and> src \<noteq> dst \<longrightarrow> dijkstra g src dst = Some (Inl TypeError))
   \<and> (truthy (fromNode st) \<and> truthy (toNode st) \<and> \<not> draw < simulateFailureRate st
        \<and> the (fromNode st) \<notin> keys (REGIONAL_GRAPHS ! (roundRobinState st mod 3))
        \<and> the (fromNode st) \<noteq> the (toNode st)
        \<longrightarrow> snd (snd (submitRequest st draw)) = Some (Threw (roundRobinState st mod 3) TypeError))"
proof (intro conjI impI)
  show "dijkstra g src dst = Some (Inl TypeError)" if "src \<notin> keys g \<and> src \<noteq> dst"
    using that dijkstra_unknown_src by blast
  show "snd (snd (submitRequest st draw)) = Some (Threw (roundRobinState st mod 3) TypeError)"
    if a: "truthy (fromNode st) \<and> truthy (toNode st) \<and> \<not> draw < simulateFailureRate st
        \<and> the (fromNode st) \<notin> keys (REGIONAL_GRAPHS ! (roundRobinState st mod 3))
        \<and> the (fromNode st) \<noteq> the (toNode st)"
  proof -
    have "dijkstra (REGIONAL_GRAPHS ! (roundRobinState st mod 3)) (the (fromNode st)) (the (toNode st))
        = Some (Inl TypeError)"
      using a dijkstra_unknown_src by blast
    then show ?thesis using a submit_threw by blast
  qed
qed

theorem unknown_source_throws_witness:
  "''Z'' \<notin> keys server1 \<and> ''Z'' \<noteq> ''A''
   \<and> dijkstra server1 ''Z'' ''A'' = Some (Inl TypeError)
   \<and> snd (snd (submitRequest
        \<lparr>roundRobinState = 0, fromNode = Some ''Z'', toNode = Some ''A'', simulateFailureRate = 0\<rparr>
        (1 / 2))) = Some (Threw 0 TypeError)"
proof -
  have k: "''Z'' \<notin> keys server1" by (simp add: keys_def server1_def)
  have g: "REGIONAL_GRAPHS ! 0 = server1" by (simp add: REGIONAL_GRAPHS_def)
  have t: "truthy (Some ''Z'')" "truthy (Some ''A'')" by (simp_all add: truthy_def)
  show ?thesis
    using k g t
      unknown_source_throws[of "''Z''" server1 "''A''"
        "\<lparr>roundRobinState = 0, fromNode = Some ''Z'', toNode = Some ''A'', simulateFailureRate = 0\<rparr>"
        "1 / 2"]
    by simp
qed

section \<open>Correctness of the engine\<close>

lemma cinvI:
  assumes "dom (distv st) = keys g"
    and "\<exists>d0. distv st src = Some (Num d0) \<and> d0 \<le> 0"
    and "\<And>v dv. distv st v = Some (Num dv) \<Longrightarrow> (dv, v) \<notin> set (pq st) \<Longrightarrow> Some v \<noteq> cur
            \<Longrightarrow> relaxed g (distv st) v dv"
    and "\<And>v dv. distv st v = Some (Num dv) \<Longrightarrow> traced g src st v dv"
  shows "cinv g src cur st"
  unfolding cinv_def using assms by blast

lemma cinvD:
  assumes "cinv g src cur st"
  shows "dom (distv st) = keys g"
    and "\<exists>d0. distv st src = Some (Num d0) \<and> d0 \<le> 0"
    and "\<And>v dv. distv st v = Some (Num dv) \<Longrightarrow> (dv, v) \<notin> set (pq st) \<Longrightarrow> Some v \<noteq> cur
            \<Longrightarrow> relaxed g (distv st) v dv"
    and "\<And>v dv. distv st v = Some (Num dv) \<Longrightarrow> traced g src st v dv"
  using assms unfolding cinv_def by blast+

lemma route_ends: "route g a p c v \<Longrightarrow> p \<noteq> [] \<and> hd p = a \<and> last p = v"
  by (induction rule: route.induct) auto

lemma route_nonneg: "route g a p c v \<Longrightarrow> nonneg_costs g \<Longrightarrow> 0 \<le> c"
proof (induction rule: route.induct)
  case (stay u)
  then show ?case by simp
next
  case (step u es e p c v)
  then have "0 \<le> cost e" using nonneg_edges by blast
  then show ?case using step by simp
qed

lemma wf_edge_key:
  assumes "wf_graph g" and "map_of g u = Some es" and "e \<in> set es"
  shows "to e \<in> keys g"
proof -
  have "(u, es) \<in> set g" using assms(2) by (rule map_of_SomeD)
  then show ?thesis using assms(1,3) by (auto simp: wf_graph_def)
qed

lemma route_nodes: "route g a p c v \<Longrightarrow> set p \<subseteq> keys g"
proof (induction rule: route.induct)
  case (stay u)
  then show ?case by simp
next
  case (step u es e p c v)
  have "u \<in> keys g" using step.hyps(1) map_of_keys[of g u] by auto
  then show ?case using step by simp
qed

lemma route_snoc:
  assumes "route g a p c u" and "map_of g u = Some es" and "e \<in> set es" and "to e \<in> keys g"
  shows "route g a (p @ [to e]) (c + cost e) (to e)"
  using assms
proof (induction rule: route.induct)
  case (stay u)
  have "route g (to e) [to e] 0 (to e)" using stay.prems(3) by (rule route.stay)
  then have "route g u (u # [to e]) (cost e + 0) (to e)"
    using stay.prems(1,2) by (rule route.step[rotated 2])
  then show ?case by simp
next
  case (step u' es' e' p c v)
  have "route g (to e') (p @ [to e]) (c + cost e) (to e)"
    using step.IH step.prems by blast
  then have "route g u' (u' # (p @ [to e])) (cost e' + (c + cost e)) (to e)"
    using step.hyps(1,2) by (rule route.step[rotated 2])
  then show ?case by (simp add: add.assoc)
qed

lemma rchain_cong:
  "rchain prv r \<Longrightarrow> (\<And>x. x \<in> set r \<Longrightarrow> prv' x = prv x) \<Longrightarrow> rchain prv' r"
  by (induction prv r rule: rchain.induct) auto

lemma reconstruct_rchain:
  "rchain prv (x # r) \<Longrightarrow> (\<And>y. y \<in> set (x # r) \<Longrightarrow> y \<noteq> [])
     \<Longrightarrow> reconstruct prv (Some x) acc = Some (rev (x # r) @ acc)"
proof (induction r arbitrary: x acc)
  case Nil
  then show ?case by (simp add: reconstruct_single)
next
  case (Cons y r)
  have x: "x \<noteq> []" "prv x = Some y" and rc: "rchain prv (y # r)"
    using Cons.prems by auto
  have "reconstruct prv (Some y) (x # acc) = Some (rev (y # r) @ (x # acc))"
    using Cons.IH[OF rc] Cons.prems(2) by simp
  then show ?case using x by (subst reconstruct.simps) simp
qed

lemma relax_edge_mono:
  assumes "distv s w = Some (Num dw)"
  shows "\<exists>dw'. distv (relax_edge u d e s) w = Some (Num dw') \<and> dw' \<le> dw"
proof (cases "alt_lt (d + cost e) (distv s (to e))")
  case False
  then show ?thesis using assms by (simp add: relax_edge_skip)
next
  case True
  show ?thesis
  proof (cases "w = to e")
    case w: True
    then have "d + cost e < dw" using True assms by (simp add: alt_lt_def)
    then show ?thesis using True w by (simp add: relax_edge_update)
  next
    case False
    then show ?thesis using True assms by (simp add: relax_edge_update)
  qed
qed

lemma relax_mono:
  assumes "distv s w = Some (Num dw)"
  shows "\<exists>dw'. distv (relax u d es s) w = Some (Num dw') \<and> dw' \<le> dw"
  using assms
proof (induction es arbitrary: s dw)
  case Nil
  then show ?case by (simp add: relax_def)
next
  case (Cons e es)
  obtain d1 where d1: "distv (relax_edge u d e s) w = Some (Num d1)" "d1 \<le> dw"
    using relax_edge_mono[OF Cons.prems] by blast
  obtain d2 where "distv (relax u d es (relax_edge u d e s)) w = Some (Num d2)" "d2 \<le> d1"
    using Cons.IH[OF d1(1)] by blast
  moreover have "relax u d (e # es) s = relax u d es (relax_edge u d e s)" by (simp add: relax_def)
  ultimately show ?case using d1(2) by auto
qed

lemma relax_edge_relaxes:
  assumes "to e \<in> dom (distv s)"
  shows "\<exists>dw. distv (relax_edge u d e s) (to e) = Some (Num dw) \<and> dw \<le> d + cost e"
proof (cases "alt_lt (d + cost e) (distv s (to e))")
  case True
  then show ?thesis by (simp add: relax_edge_update)
next
  case False
  then obtain y where "distv s (to e) = Some (Num y)" "y \<le> d + cost e"
    using assms by (auto simp: alt_lt_def split: option.splits num.splits)
  then show ?thesis using False by (simp add: relax_edge_skip)
qed

lemma relaxed_mono:
  assumes "relaxed g dm v dv"
    and "\<And>w dw. dm w = Some (Num dw) \<Longrightarrow> \<exists>dw'. dm' w = Some (Num dw') \<and> dw' \<le> dw"
  shows "relaxed g dm' v dv"
  unfolding relaxed_def
proof (intro allI impI)
  fix es e assume a: "map_of g v = Some es \<and> e \<in> set es"
  then obtain dw where dw: "dm (to e) = Some (Num dw)" "dw \<le> dv + cost e"
    using assms(1) unfolding relaxed_def by blast
  obtain dw' where "dm' (to e) = Some (Num dw')" "dw' \<le> dw" using assms(2)[OF dw(1)] by blast
  then show "\<exists>dw. dm' (to e) = Some (Num dw) \<and> dw \<le> dv + cost e" using dw(2) by auto
qed

lemma settled_shrink:
  "settled st x \<Longrightarrow> set h \<subseteq> set (pq st) \<Longrightarrow> settled (st\<lparr>pq := h\<rparr>) x"
  by (auto simp: settled_def)

lemma traced_shrink:
  assumes "traced g src st v dv" and "set h \<subseteq> set (pq st)"
  shows "traced g src (st\<lparr>pq := h\<rparr>) v dv"
proof -
  obtain p where p: "route g src p dv v" "rchain (prev st) (rev p)" "\<forall>x \<in> set (butlast p). settled st x"
    using assms(1) unfolding traced_def by blast
  have "\<forall>x \<in> set (butlast p). settled (st\<lparr>pq := h\<rparr>) x"
    using p(3) settled_shrink[OF _ assms(2)] by blast
  then show ?thesis unfolding traced_def using p(1,2) by auto
qed

lemma cinv_stale:
  assumes inv: "tinv st" and ci: "cinv g src None st"
    and p: "pop (pq st) = (Some (d, u), h)" and s: "d_gt d (distv st u)"
  shows "cinv g src None (st\<lparr>pq := h\<rparr>)"
proof -
  note ps = pop_Some_set[OF tinvD(1,2)[OF inv] p]
  have sub: "set h \<subseteq> set (pq st)" using ps(1) by auto
  obtain du where du: "distv st u = Some (Num du)" "du < d"
    using s by (auto simp: d_gt_def split: option.splits num.splits)
  show ?thesis
  proof (rule cinvI)
    show "dom (distv (st\<lparr>pq := h\<rparr>)) = keys g" using cinvD(1)[OF ci] by simp
    show "\<exists>d0. distv (st\<lparr>pq := h\<rparr>) src = Some (Num d0) \<and> d0 \<le> 0" using cinvD(2)[OF ci] by simp
    show "relaxed g (distv (st\<lparr>pq := h\<rparr>)) v dv"
      if a: "distv (st\<lparr>pq := h\<rparr>) v = Some (Num dv)" "(dv, v) \<notin> set (pq (st\<lparr>pq := h\<rparr>))" for v dv
    proof -
      have "(dv, v) \<noteq> (d, u)" using a(1) du by auto
      then have "(dv, v) \<notin> set (pq st)" using a(2) ps(1) by simp
      then show ?thesis using cinvD(3)[OF ci, of v dv] a(1) by simp
    qed
    show "traced g src (st\<lparr>pq := h\<rparr>) v dv" if "distv (st\<lparr>pq := h\<rparr>) v = Some (Num dv)" for v dv
      using traced_shrink[OF cinvD(4)[OF ci, of v dv] sub] that by simp
  qed
qed

lemma cinv_live:
  assumes inv: "tinv st" and ci: "cinv g src None st"
    and p: "pop (pq st) = (Some (d, u), h)" and s: "\<not> d_gt d (distv st u)"
  shows "cinv g src (Some u) (st\<lparr>pq := h\<rparr>)"
proof -
  note ls = live_step[OF inv p s]
  have sub: "set h \<subseteq> set (pq st)" using ls(8) by auto
  show ?thesis
  proof (rule cinvI)
    show "dom (distv (st\<lparr>pq := h\<rparr>)) = keys g" using cinvD(1)[OF ci] by simp
    show "\<exists>d0. distv (st\<lparr>pq := h\<rparr>) src = Some (Num d0) \<and> d0 \<le> 0" using cinvD(2)[OF ci] by simp
    show "relaxed g (distv (st\<lparr>pq := h\<rparr>)) v dv"
      if a: "distv (st\<lparr>pq := h\<rparr>) v = Some (Num dv)" "(dv, v) \<notin> set (pq (st\<lparr>pq := h\<rparr>))"
        "Some v \<noteq> Some u" for v dv
    proof -
      have "(dv, v) \<notin> set (pq st)" using a(2,3) ls(8) by simp
      then show ?thesis using cinvD(3)[OF ci, of v dv] a(1) by simp
    qed
    show "traced g src (st\<lparr>pq := h\<rparr>) v dv" if "distv (st\<lparr>pq := h\<rparr>) v = Some (Num dv)" for v dv
      using traced_shrink[OF cinvD(4)[OF ci, of v dv] sub] that by simp
  qed
qed

lemma settled_not_unsettled: "settled s x \<Longrightarrow> x \<notin> unsettled s"
  by (auto simp: settled_def unsettled_def)

lemma rphase_edge:
  assumes ph: "rphase g src u d s" and wf: "wf_graph g"
    and es: "map_of g u = Some es" and e: "e \<in> set es" and c: "0 \<le> cost e"
  shows "rphase g src u d (relax_edge u d e s)"
proof (cases "alt_lt (d + cost e) (distv s (to e))")
  case False
  then show ?thesis using ph by (simp add: relax_edge_skip)
next
  case True
  define v where "v = to e"
  define a where "a = d + cost e"
  define s' where "s' = s\<lparr>distv := (distv s)(v \<mapsto> Num a), prev := (prev s)(v \<mapsto> u),
      pq := push (pq s) (a, v)\<rparr>"
  have eq: "relax_edge u d e s = s'" using True by (simp add: relax_edge_update s'_def v_def a_def)
  have r: "rinv d s" and ci: "cinv g src (Some u) s" and du: "distv s u = Some (Num d)"
    and nu: "(d, u) \<notin> set (pq s)"
    using ph by (simp_all add: rphase_def)
  have su: "settled s u" using du nu by (auto simp: settled_def)
  have da: "d \<le> a" using c by (simp add: a_def)
  have lt: "alt_lt a (distv s v)" using True by (simp add: a_def v_def)
  have vu: "v \<in> unsettled s" using rinv_target_unsettled[OF r lt da] .
  have nv: "x \<noteq> v" if "settled s x" for x using settled_not_unsettled[OF that] vu by auto
  have uv: "u \<noteq> v" using nv[OF su] .
  have pqs: "set (pq s') = insert (a, v) (set (pq s))" by (simp add: s'_def set_push)
  have dv: "distv s' v = Some (Num a)" by (simp add: s'_def)
  have dn: "distv s' x = distv s x" if "x \<noteq> v" for x using that by (simp add: s'_def)
  have pn: "prev s' x = prev s x" if "x \<noteq> v" for x using that by (simp add: s'_def)
  have pv: "prev s' v = Some u" by (simp add: s'_def)
  have keep: "settled s' x" if "settled s x" for x
    using that nv[OF that] dn[of x] pqs by (auto simp: settled_def)
  have bk: "(dx, x) \<notin> set (pq s)" if "(dx, x) \<notin> set (pq s')" for dx x
    using that pqs by auto
  have mono: "\<exists>dw'. distv s' w = Some (Num dw') \<and> dw' \<le> dw" if "distv s w = Some (Num dw)" for w dw
    using relax_edge_mono[OF that, of u d e] by (simp add: eq)
  have vk: "v \<in> keys g" using wf_edge_key[OF wf es e] by (simp add: v_def)
  have ci': "cinv g src (Some u) s'"
  proof (rule cinvI)
    have "v \<in> dom (distv s)" using lt by (auto simp: alt_lt_def split: option.splits)
    then show "dom (distv s') = keys g" using cinvD(1)[OF ci] by (auto simp: s'_def)
    show "\<exists>d0. distv s' src = Some (Num d0) \<and> d0 \<le> 0"
    proof -
      obtain d0 where d0: "distv s src = Some (Num d0)" "d0 \<le> 0" using cinvD(2)[OF ci] by blast
      obtain d1 where "distv s' src = Some (Num d1)" "d1 \<le> d0" using mono[OF d0(1)] by blast
      then show ?thesis using d0(2) by auto
    qed
    show "relaxed g (distv s') x dx"
      if a: "distv s' x = Some (Num dx)" "(dx, x) \<notin> set (pq s')" "Some x \<noteq> Some u" for x dx
    proof -
      have xv: "x \<noteq> v" using a(1,2) dv pqs by auto
      then have "distv s x = Some (Num dx)" using a(1) dn by simp
      then have "relaxed g (distv s) x dx" using cinvD(3)[OF ci _ bk[OF a(2)] a(3)] by blast
      then show ?thesis using mono by (rule relaxed_mono)
    qed
    show "traced g src s' x dx" if a: "distv s' x = Some (Num dx)" for x dx
    proof (cases "x = v")
      case False
      then have "distv s x = Some (Num dx)" using a dn by simp
      then obtain p where p: "route g src p dx x" "rchain (prev s) (rev p)"
          "\<forall>y \<in> set (butlast p). settled s y"
        using cinvD(4)[OF ci] unfolding traced_def by blast
      have pl: "p \<noteq> []" "last p = x" using route_ends[OF p(1)] by simp_all
      have "y \<noteq> v" if "y \<in> set p" for y
      proof (cases "y \<in> set (butlast p)")
        case True
        then show ?thesis using p(3) nv by blast
      next
        case F: False
        have "p = butlast p @ [last p]" using pl(1) by simp
        then have "set p = insert (last p) (set (butlast p))"
          by (metis Un_insert_right append_Nil2 list.simps(15) set_append)
        then have "y = x" using that F pl(2) by auto
        then show ?thesis using False by simp
      qed
      then have "rchain (prev s') (rev p)" using rchain_cong[OF p(2)] pn by simp
      moreover have "\<forall>y \<in> set (butlast p). settled s' y" using p(3) keep by blast
      ultimately show ?thesis unfolding traced_def using p(1) by blast
    next
      case True
      then have dx: "dx = a" using a dv by simp
      obtain p where p: "route g src p d u" "rchain (prev s) (rev p)"
          "\<forall>y \<in> set (butlast p). settled s y"
        using cinvD(4)[OF ci du] unfolding traced_def by blast
      have pl: "p \<noteq> []" "last p = u" using route_ends[OF p(1)] by simp_all
      have sp: "set p = insert u (set (butlast p))"
      proof -
        have "p = butlast p @ [last p]" using pl(1) by simp
        then have "set p = insert (last p) (set (butlast p))"
          by (metis Un_insert_right append_Nil2 list.simps(15) set_append)
        then show ?thesis using pl(2) by simp
      qed
      have allp: "settled s y" if "y \<in> set p" for y using that sp p(3) su by auto
      have "route g src (p @ [to e]) (d + cost e) (to e)"
        using route_snoc[OF p(1) es e] vk by (simp add: v_def)
      then have r1: "route g src (p @ [v]) a v" by (simp add: v_def a_def)
      have "rchain (prev s') (rev p)" using rchain_cong[OF p(2)] pn nv[OF allp] by simp
      moreover obtain r where r: "rev p = u # r" using pl by (cases p rule: rev_cases) auto
      ultimately have "rchain (prev s') (v # u # r)" using pv by simp
      then have r2: "rchain (prev s') (rev (p @ [v]))" using r by simp
      have r3: "\<forall>y \<in> set (butlast (p @ [v])). settled s' y" using allp keep by simp
      show ?thesis unfolding traced_def using r1 r2 r3 True dx by blast
    qed
  qed
  have "rinv d s'" using rinv_edge(1)[OF r c, of u] by (simp add: eq)
  moreover have "distv s' u = Some (Num d)" using du dn[OF uv] by simp
  moreover have "(d, u) \<notin> set (pq s')" using nu pqs uv by auto
  ultimately show ?thesis using ci' by (simp add: rphase_def eq)
qed

lemma rphase_relax:
  assumes "rphase g src u d s" and wf: "wf_graph g" and es: "map_of g u = Some es"
    and "set es' \<subseteq> set es" and "\<forall>e \<in> set es'. 0 \<le> cost e"
  shows "rphase g src u d (relax u d es' s)
       \<and> (\<forall>e \<in> set es'. \<exists>dw. distv (relax u d es' s) (to e) = Some (Num dw) \<and> dw \<le> d + cost e)"
  using assms(1,4,5)
proof (induction es' arbitrary: s)
  case Nil
  then show ?case by (simp add: relax_def)
next
  case (Cons e es')
  let ?s1 = "relax_edge u d e s"
  have e: "e \<in> set es" and c: "0 \<le> cost e" using Cons.prems by auto
  have ph1: "rphase g src u d ?s1" using rphase_edge[OF Cons.prems(1) wf es e c] .
  have ci: "cinv g src (Some u) s" using Cons.prems(1) by (simp add: rphase_def)
  have "to e \<in> dom (distv s)" using wf_edge_key[OF wf es e] cinvD(1)[OF ci] by simp
  then obtain d1 where d1: "distv ?s1 (to e) = Some (Num d1)" "d1 \<le> d + cost e"
    using relax_edge_relaxes[of e s u d] by blast
  obtain d2 where d2: "distv (relax u d es' ?s1) (to e) = Some (Num d2)" "d2 \<le> d1"
    using relax_mono[OF d1(1)] by blast
  have IH: "rphase g src u d (relax u d es' ?s1)
       \<and> (\<forall>e \<in> set es'. \<exists>dw. distv (relax u d es' ?s1) (to e) = Some (Num dw) \<and> dw \<le> d + cost e)"
    using Cons.IH[OF ph1] Cons.prems(2,3) by simp
  have eq: "relax u d (e # es') s = relax u d es' ?s1" by (simp add: relax_def)
  show ?case unfolding eq using IH d2 d1(2) by auto
qed

lemma cinv_close:
  assumes ph: "rphase g src u d s" and es: "map_of g u = Some es"
    and rl: "\<forall>e \<in> set es. \<exists>dw. distv s (to e) = Some (Num dw) \<and> dw \<le> d + cost e"
  shows "cinv g src None s"
proof (rule cinvI)
  have ci: "cinv g src (Some u) s" and du: "distv s u = Some (Num d)"
    using ph by (simp_all add: rphase_def)
  show "dom (distv s) = keys g" using cinvD(1)[OF ci] .
  show "\<exists>d0. distv s src = Some (Num d0) \<and> d0 \<le> 0" using cinvD(2)[OF ci] .
  show "traced g src s v dv" if "distv s v = Some (Num dv)" for v dv using cinvD(4)[OF ci that] .
  show "relaxed g (distv s) v dv" if a: "distv s v = Some (Num dv)" "(dv, v) \<notin> set (pq s)" for v dv
  proof (cases "v = u")
    case True
    then have "dv = d" using a(1) du by simp
    then show ?thesis using True es rl by (auto simp: relaxed_def)
  next
    case False
    then show ?thesis using cinvD(3)[OF ci a] by simp
  qed
qed

lemma cinv_relax:
  assumes inv: "tinv st" and ci: "cinv g src None st"
    and p: "pop (pq st) = (Some (d, u), h)" and s: "\<not> d_gt d (distv st u)"
    and wf: "wf_graph g" and nn: "nonneg_costs g" and es: "map_of g u = Some es"
  shows "cinv g src None (relax u d es (st\<lparr>pq := h\<rparr>))"
proof -
  note ls = live_step[OF inv p s]
  have "rphase g src u d (st\<lparr>pq := h\<rparr>)"
    using ls(1,2,6) cinv_live[OF inv ci p s] by (simp add: rphase_def)
  then have "rphase g src u d (relax u d es (st\<lparr>pq := h\<rparr>))
      \<and> (\<forall>e \<in> set es. \<exists>dw. distv (relax u d es (st\<lparr>pq := h\<rparr>)) (to e) = Some (Num dw)
            \<and> dw \<le> d + cost e)"
    using rphase_relax[OF _ wf es _ nonneg_edges[OF nn es]] by blast
  then show ?thesis using cinv_close[OF _ es] by blast
qed

lemma lower_bound:
  assumes nn: "nonneg_costs g" and ci: "cinv g src None st"
  shows "route g a p c v \<Longrightarrow> distv st a = Some (Num da)
     \<Longrightarrow> (\<exists>dv. distv st v = Some (Num dv) \<and> dv \<le> da + c)
         \<or> (\<exists>d' w. (d', w) \<in> set (pq st) \<and> d' \<le> da + c)"
proof (induction arbitrary: da rule: route.induct)
  case (stay u)
  then show ?case by simp
next
  case (step u es e p c v)
  have c0: "0 \<le> c" using route_nonneg[OF step.hyps(3) nn] .
  have e0: "0 \<le> cost e" using nonneg_edges[OF nn step.hyps(1)] step.hyps(2) by blast
  show ?case
  proof (cases "(da, u) \<in> set (pq st)")
    case True
    then show ?thesis using c0 e0 by (intro disjI2 exI[of _ da] exI[of _ u]) simp
  next
    case False
    have "relaxed g (distv st) u da" using cinvD(3)[OF ci step.prems False] by simp
    then obtain dw where dw: "distv st (to e) = Some (Num dw)" "dw \<le> da + cost e"
      using step.hyps(1,2) unfolding relaxed_def by blast
    from step.IH[OF dw(1)] show ?thesis
    proof
      assume "\<exists>dv. distv st v = Some (Num dv) \<and> dv \<le> dw + c"
      then obtain dv where "distv st v = Some (Num dv)" "dv \<le> dw + c" by blast
      then show ?thesis using dw(2) by (intro disjI1 exI[of _ dv]) simp
    next
      assume "\<exists>d' w. (d', w) \<in> set (pq st) \<and> d' \<le> dw + c"
      then obtain d' w where "(d', w) \<in> set (pq st)" "d' \<le> dw + c" by blast
      then show ?thesis using dw(2) by (intro disjI2 exI[of _ d'] exI[of _ w]) simp
    qed
  qed
qed

lemma lower_bound_src:
  assumes nn: "nonneg_costs g" and ci: "cinv g src None st" and r: "route g src p c v"
  shows "(\<exists>dv. distv st v = Some (Num dv) \<and> dv \<le> c)
         \<or> (\<exists>d' w. (d', w) \<in> set (pq st) \<and> d' \<le> c)"
proof -
  obtain d0 where d0: "distv st src = Some (Num d0)" "d0 \<le> 0" using cinvD(2)[OF ci] by blast
  from lower_bound[OF nn ci r d0(1)] show ?thesis
  proof
    assume "\<exists>dv. distv st v = Some (Num dv) \<and> dv \<le> d0 + c"
    then obtain dv where "distv st v = Some (Num dv)" "dv \<le> d0 + c" by blast
    then show ?thesis using d0(2) by (intro disjI1 exI[of _ dv]) simp
  next
    assume "\<exists>d' w. (d', w) \<in> set (pq st) \<and> d' \<le> d0 + c"
    then obtain d' w where "(d', w) \<in> set (pq st)" "d' \<le> d0 + c" by blast
    then show ?thesis using d0(2) by (intro disjI2 exI[of _ d'] exI[of _ w]) simp
  qed
qed

lemma traced_route:
  "traced g src st v dv \<Longrightarrow> \<exists>p. route g src p dv v \<and> rchain (prev st) (rev p)"
  unfolding traced_def by blast

lemma post_empty:
  assumes nn: "nonneg_costs g" and ci: "cinv g src None st" and e: "pq st = []"
    and dst: "dst \<in> keys g"
  shows "post g src dst st"
  unfolding post_def
proof (intro conjI allI impI)
  show "dst \<in> dom (distv st)" using dst cinvD(1)[OF ci] by simp
  show "\<exists>dv. distv st dst = Some (Num dv) \<and> dv \<le> c" if "route g src p c dst" for p c
    using lower_bound_src[OF nn ci that] e by simp
  show "\<exists>p. route g src p dv dst \<and> rchain (prev st) (rev p)" if "distv st dst = Some (Num dv)" for dv
    using traced_route[OF cinvD(4)[OF ci that]] .
qed

lemma post_hit:
  assumes nn: "nonneg_costs g" and inv: "tinv st" and ci: "cinv g src None st"
    and p: "pop (pq st) = (Some (d, dst), h)" and s: "\<not> d_gt d (distv st dst)"
  shows "post g src dst (st\<lparr>pq := h\<rparr>)"
  unfolding post_def
proof (intro conjI allI impI)
  note ls = live_step[OF inv p s]
  show "dst \<in> dom (distv (st\<lparr>pq := h\<rparr>))" using ls(2) by auto
  show "\<exists>dv. distv (st\<lparr>pq := h\<rparr>) dst = Some (Num dv) \<and> dv \<le> c" if "route g src q c dst" for q c
  proof -
    from lower_bound_src[OF nn ci that] show ?thesis
    proof
      assume "\<exists>dv. distv st dst = Some (Num dv) \<and> dv \<le> c"
      then show ?thesis by simp
    next
      assume "\<exists>d' w. (d', w) \<in> set (pq st) \<and> d' \<le> c"
      then obtain d' w where "(d', w) \<in> set (pq st)" "d' \<le> c" by blast
      then have "d \<le> c" using ls(7)[of d' w] by simp
      then show ?thesis using ls(2) by simp
    qed
  qed
  show "\<exists>q. route g src q dv dst \<and> rchain (prev (st\<lparr>pq := h\<rparr>)) (rev q)"
    if "distv (st\<lparr>pq := h\<rparr>) dst = Some (Num dv)" for dv
    using traced_route[OF cinvD(4)[OF ci, of dst dv]] that by simp
qed

lemma cinv_init:
  assumes "src \<in> keys g"
  shows "cinv g src None (init g src)"
proof (rule cinvI)
  show "dom (distv (init g src)) = keys g" using assms
    by (auto simp: init_dist split: if_splits)
  show "\<exists>d0. distv (init g src) src = Some (Num d0) \<and> d0 \<le> 0" by (simp add: init_dist)
  show "relaxed g (distv (init g src)) v dv"
    if "distv (init g src) v = Some (Num dv)" "(dv, v) \<notin> set (pq (init g src))" for v dv
    using that by (auto simp: init_dist init_pq split: if_splits)
  show "traced g src (init g src) v dv" if "distv (init g src) v = Some (Num dv)" for v dv
  proof -
    have v: "v = src" "dv = 0" using that by (auto simp: init_dist split: if_splits)
    have "route g src [src] 0 src" using assms by (rule route.stay)
    moreover have "rchain (prev (init g src)) (rev [src])" by (simp add: init_prev)
    ultimately show ?thesis unfolding traced_def v by (intro exI[of _ "[src]"]) simp
  qed
qed

lemma loop_post:
  assumes wf: "wf_graph g" and nn: "nonneg_costs g" and src: "src \<in> keys g" and dst: "dst \<in> keys g"
  shows "\<exists>st. dijkstra_loop g dst (init g src) = Some (Inr st) \<and> post g src dst st"
proof -
  define Q where "Q = (\<lambda>r :: error + dstate. \<exists>st. r = Inr st \<and> post g src dst st)"
  have "\<exists>r. dijkstra_loop g dst (init g src) = Some r \<and> Q r"
  proof (rule loop_rule[where J = "cinv g src None" and Q = Q, OF nn])
    show "tinv (init g src)" by (rule tinv_init)
    show "cinv g src None (init g src)" using src by (rule cinv_init)
  next
    fix st assume "cinv g src None st" "pq st = []"
    then show "Q (Inr st)" using post_empty[OF nn _ _ dst] by (simp add: Q_def)
  next
    fix st d u h
    assume "tinv st" "cinv g src None st" "pop (pq st) = (Some (d, u), h)" "d_gt d (distv st u)"
    then show "cinv g src None (st\<lparr>pq := h\<rparr>)" by (rule cinv_stale)
  next
    fix st d h
    assume "tinv st" "cinv g src None st" "pop (pq st) = (Some (d, dst), h)"
      "\<not> d_gt d (distv st dst)"
    then show "Q (Inr (st\<lparr>pq := h\<rparr>))" using post_hit[OF nn] by (simp add: Q_def)
  next
    fix st d u h
    assume inv: "tinv st" and ci: "cinv g src None st" and p: "pop (pq st) = (Some (d, u), h)"
      and s: "\<not> d_gt d (distv st u)" and n: "map_of g u = None"
    have "distv st u = Some (Num d)" using live_step(2)[OF inv p s] .
    then have "u \<in> keys g" using cinvD(1)[OF ci] by auto
    then show "Q (Inl TypeError)" using n by (simp add: map_of_keys)
  next
    fix st d u h es
    assume "tinv st" "cinv g src None st" "pop (pq st) = (Some (d, u), h)"
      "\<not> d_gt d (distv st u)" "map_of g u = Some es"
    then show "cinv g src None (relax u d es (st\<lparr>pq := h\<rparr>))"
      using cinv_relax[OF _ _ _ _ wf nn] by blast
  qed
  then show ?thesis by (auto simp: Q_def)
qed

lemma dijkstra_result:
  assumes wf: "wf_graph g" and nn: "nonneg_costs g" and src: "src \<in> keys g" and dst: "dst \<in> keys g"
    and ne: "[] \<notin> keys g"
  shows "(\<not> (\<exists>p c. route g src p c dst) \<longrightarrow> dijkstra g src dst = Some (Inr NotFound))
       \<and> ((\<exists>p c. route g src p c dst) \<longrightarrow>
            (\<exists>path d. dijkstra g src dst = Some (Inr (Found path (Some (Num d))))
               \<and> route g src path d dst \<and> (\<forall>p c. route g src p c dst \<longrightarrow> d \<le> c)))"
proof -
  obtain st where st: "dijkstra_loop g dst (init g src) = Some (Inr st)" and po: "post g src dst st"
    using loop_post[OF wf nn src dst] by blast
  have dom: "dst \<in> dom (distv st)"
    and lb: "\<And>p c. route g src p c dst \<Longrightarrow> \<exists>dv. distv st dst = Some (Num dv) \<and> dv \<le> c"
    and tr: "\<And>dv. distv st dst = Some (Num dv) \<Longrightarrow> \<exists>p. route g src p dv dst \<and> rchain (prev st) (rev p)"
    using po unfolding post_def by blast+
  show ?thesis
  proof (intro conjI impI)
    assume un: "\<not> (\<exists>p c. route g src p c dst)"
    have "distv st dst = Some Infinity"
    proof -
      obtain x where x: "distv st dst = Some x" using dom by auto
      show ?thesis
      proof (cases x)
        case (Num dv)
        then show ?thesis using tr[of dv] x un by blast
      next
        case Infinity
        then show ?thesis using x by simp
      qed
    qed
    then show "dijkstra g src dst = Some (Inr NotFound)" using st by (simp add: dijkstra_def)
  next
    assume "\<exists>p c. route g src p c dst"
    then obtain p0 c0 where r0: "route g src p0 c0 dst" by blast
    obtain d where d: "distv st dst = Some (Num d)" using lb[OF r0] by blast
    obtain p where p: "route g src p d dst" "rchain (prev st) (rev p)" using tr[OF d] by blast
    have pl: "p \<noteq> []" "last p = dst" using route_ends[OF p(1)] by simp_all
    then obtain r where r: "rev p = dst # r" by (cases p rule: rev_cases) auto
    have "y \<noteq> []" if "y \<in> set (dst # r)" for y
    proof -
      have "y \<in> set p" using that r by (metis set_rev)
      then show ?thesis using route_nodes[OF p(1)] ne by auto
    qed
    then have "reconstruct (prev st) (Some dst) [] = Some (rev (dst # r) @ [])"
      using reconstruct_rchain[of "prev st" dst r "[]"] p(2) r by simp
    moreover have "rev (dst # r) = p" using r by (metis rev_rev_ident)
    ultimately have "reconstruct (prev st) (Some dst) [] = Some p" by simp
    then have "dijkstra g src dst = Some (Inr (Found p (Some (Num d))))"
      using st d by (simp add: dijkstra_def)
    moreover have "\<forall>q c. route g src q c dst \<longrightarrow> d \<le> c" using lb d by fastforce
    ultimately show "\<exists>path d. dijkstra g src dst = Some (Inr (Found path (Some (Num d))))
               \<and> route g src path d dst \<and> (\<forall>p c. route g src p c dst \<longrightarrow> d \<le> c)"
      using p(1) by blast
  qed
qed

text \<open>
  Claim C1, as stated, fails on a graph that has the empty string among its nodes: the
  empty string is falsy, so the path loop \<open>while (u)\<close> stops when it reaches it. On the
  graph below the only path from A to B runs through the empty-string node; the engine
  returns the right distance 2 but the path \<open>[B]\<close>, which is not a path from A.
\<close>

theorem shortest_path_empty_node_counterexample:
  "wf_graph [(''A'', [E [] 1]), ([], [E ''B'' 1]), (''B'', [])]
   \<and> nonneg_costs [(''A'', [E [] 1]), ([], [E ''B'' 1]), (''B'', [])]
   \<and> ''A'' \<in> keys [(''A'', [E [] 1]), ([], [E ''B'' 1]), (''B'', [])]
   \<and> ''B'' \<in> keys [(''A'', [E [] 1]), ([], [E ''B'' 1]), (''B'', [])]
   \<and> dijkstra [(''A'', [E [] 1]), ([], [E ''B'' 1]), (''B'', [])] ''A'' ''B''
       = Some (Inr (Found [''B''] (Some (Num 2))))
   \<and> \<not> route [(''A'', [E [] 1]), ([], [E ''B'' 1]), (''B'', [])] ''A'' [''B''] 2 ''B''"
proof -
  let ?g = "[(''A'', [E [] 1]), ([], [E ''B'' 1]), (''B'', [])]"
  have "wf_graph ?g" by (simp add: wf_graph_def keys_def E_def)
  moreover have "nonneg_costs ?g" by (simp add: nonneg_costs_def E_def)
  moreover have "''A'' \<in> keys ?g" "''B'' \<in> keys ?g" by (simp_all add: keys_def)
  moreover have "dijkstra ?g ''A'' ''B'' = Some (Inr (Found [''B''] (Some (Num 2))))" by code_simp
  moreover have "\<not> route ?g ''A'' [''B''] 2 ''B''"
  proof
    assume "route ?g ''A'' [''B''] 2 ''B''"
    then have "hd [''B''] = ''A''" using route_ends by blast
    then show False by simp
  qed
  ultimately show ?thesis by blast
qed

text \<open>
  Claim C1, amended. For every graph whose edge costs are non-negative integers with a total
  of at most \<open>2 ^ 53\<close>, in which every edge endpoint is a key and no key is the empty string
  or \<open>__proto__\<close>, and for every \<open>src\<close> and \<open>dst\<close> among its keys: \<open>dijkstra\<close> returns \<open>null\<close>
  exactly when no directed path leads from \<open>src\<close> to \<open>dst\<close>; otherwise it returns a path and
  a distance \<open>d\<close> such that the path is a directed path of the graph from \<open>src\<close> to \<open>dst\<close>
  whose edge costs sum to \<open>d\<close>, and no directed path from \<open>src\<close> to \<open>dst\<close> costs less than
  \<open>d\<close>. The bounds on keys and costs are those of the model: within them the maps and
  integers of the model behave as the objects and doubles of the code.
\<close>

theorem dijkstra_shortest_path:
  assumes "wf_graph g" and "nonneg_costs g" and "src \<in> keys g" and "dst \<in> keys g"
    and "[] \<notin> keys g" and "''__proto__'' \<notin> keys g" and "safe_costs g"
  shows "(dijkstra g src dst = Some (Inr NotFound) \<longleftrightarrow> \<not> (\<exists>p c. route g src p c dst))
       \<and> (dijkstra g src dst \<noteq> Some (Inr NotFound) \<longrightarrow>
            (\<exists>path d. dijkstra g src dst = Some (Inr (Found path (Some (Num d))))
               \<and> route g src path d dst \<and> (\<forall>p c. route g src p c dst \<longrightarrow> d \<le> c)))"
proof -
  note res = dijkstra_result[OF assms(1-5)]
  show ?thesis
  proof (cases "\<exists>p c. route g src p c dst")
    case True
    then obtain path d where "dijkstra g src dst = Some (Inr (Found path (Some (Num d))))"
      "route g src path d dst" "\<forall>p c. route g src p c dst \<longrightarrow> d \<le> c"
      using res by blast
    then show ?thesis using True by auto
  next
    case False
    then have "dijkstra g src dst = Some (Inr NotFound)" using res by blast
    then show ?thesis using False by simp
  qed
qed

theorem dijkstra_shortest_path_witness:
  "wf_graph server1 \<and> nonneg_costs server1 \<and> ''A'' \<in> keys server1 \<and> ''G'' \<in> keys server1
   \<and> [] \<notin> keys server1 \<and> ''__proto__'' \<notin> keys server1 \<and> safe_costs server1
   \<and> (\<exists>path d. dijkstra server1 ''A'' ''G'' = Some (Inr (Found path (Some (Num d))))
          \<and> route server1 ''A'' path d ''G'' \<and> (\<forall>p c. route server1 ''A'' p c ''G'' \<longrightarrow> d \<le> c))
   \<and> wf_graph server3 \<and> nonneg_costs server3 \<and> ''A'' \<in> keys server3 \<and> ''B'' \<in> keys server3
   \<and> [] \<notin> keys server3 \<and> ''__proto__'' \<notin> keys server3 \<and> safe_costs server3
   \<and> \<not> (\<exists>p c. route server3 ''A'' p c ''B'')"
proof -
  have h1: "wf_graph server1" "nonneg_costs server1" "''A'' \<in> keys server1" "''G'' \<in> keys server1"
      "[] \<notin> keys server1" "''__proto__'' \<notin> keys server1" "safe_costs server1"
    by (simp_all add: wf_graph_def nonneg_costs_def safe_costs_def keys_def server1_def E_def)
  have h3: "wf_graph server3" "nonneg_costs server3" "''A'' \<in> keys server3" "''B'' \<in> keys server3"
      "[] \<notin> keys server3" "''__proto__'' \<notin> keys server3" "safe_costs server3"
    by (simp_all add: wf_graph_def nonneg_costs_def safe_costs_def keys_def server3_def E_def)
  have e1: "dijkstra server1 ''A'' ''G'' \<noteq> Some (Inr NotFound)" by code_simp
  have e3: "dijkstra server3 ''A'' ''B'' = Some (Inr NotFound)" by code_simp
  show ?thesis
    using h1 h3 e1 e3 dijkstra_shortest_path[OF h1] dijkstra_shortest_path[OF h3]
    by blast
qed

section \<open>Termination of dijkstra\<close>

lemma reconstruct_total:
  "rchain prv (x # r) \<Longrightarrow> \<exists>p. reconstruct prv (Some x) acc = Some p"
proof (induction r arbitrary: x acc)
  case Nil
  then have "prv x = None" by simp
  then show ?case by (subst reconstruct.simps, simp, subst reconstruct.simps, simp)
next
  case (Cons y r)
  then have x: "prv x = Some y" and rc: "rchain prv (y # r)" by auto
  obtain p where "reconstruct prv (Some y) (x # acc) = Some p" using Cons.IH[OF rc] by blast
  then show ?case using x by (subst reconstruct.simps) simp
qed

lemma reconstruct_unlinked:
  "prv x = None \<Longrightarrow> \<exists>p. reconstruct prv (Some x) acc = Some p"
  by (subst reconstruct.simps, simp, subst reconstruct.simps, simp)

lemma dijkstra_total:
  assumes wf: "wf_graph g" and nn: "nonneg_costs g"
  shows "\<exists>r. dijkstra g src dst = Some r"
proof (cases "src \<in> keys g")
  case False
  show ?thesis
  proof (cases "src = dst")
    case True
    have "\<exists>p. reconstruct (prev ((init g src)\<lparr>pq := []\<rparr>)) (Some src) [] = Some p"
      using reconstruct_unlinked[of "prev ((init g src)\<lparr>pq := []\<rparr>)" src "[]"]
      by (simp add: init_prev)
    then show ?thesis using True
      by (auto simp: dijkstra_def loop_first_same init_dist)
  next
    case ne: False
    then show ?thesis using dijkstra_unknown_src[OF False ne] by simp
  qed
next
  case src: True
  show ?thesis
  proof (cases "dst \<in> keys g")
    case False
    obtain st where st: "dijkstra_loop g dst (init g src) = Some (Inr st)"
        "distv st dst = None" "prev st dst = None"
      using loop_unknown_dst[OF nn src False] by blast
    obtain p where "reconstruct (prev st) (Some dst) [] = Some p"
      using reconstruct_unlinked[of "prev st" dst "[]"] st(3) by blast
    then show ?thesis using st by (simp add: dijkstra_def)
  next
    case dst: True
    obtain st where st: "dijkstra_loop g dst (init g src) = Some (Inr st)" and po: "post g src dst st"
      using loop_post[OF wf nn src dst] by blast
    show ?thesis
    proof (cases "distv st dst = Some Infinity")
      case True
      then show ?thesis using st by (simp add: dijkstra_def)
    next
      case False
      then obtain d where d: "distv st dst = Some (Num d)"
        using po unfolding post_def by (metis domD num.exhaust)
      then obtain p where p: "route g src p d dst" "rchain (prev st) (rev p)"
        using po unfolding post_def by blast
      have "p \<noteq> []" "last p = dst" using route_ends[OF p(1)] by simp_all
      then obtain r where "rev p = dst # r" by (cases p rule: rev_cases) auto
      then obtain q where "reconstruct (prev st) (Some dst) [] = Some q"
        using reconstruct_total[of "prev st" dst r "[]"] p(2) by auto
      then show ?thesis using st False by (simp add: dijkstra_def)
    qed
  qed
qed

text \<open>
  Claim C10. On every graph in which every edge endpoint is a key and every edge cost is
  non-negative, \<open>dijkstra\<close> terminates, for any source and destination: its
  \<open>while (true)\<close> loop runs finitely often and ends at one of its two \<open>break\<close>s or with
  the exception of an unknown node, and the call as a whole, path loop included, returns a
  result or throws. Each iteration pops one entry; a stale entry shortens the queue and
  leaves the set of unsettled nodes alone, any other entry settles its node for good, and
  only an edge that strictly lowers a tentative distance pushes.
\<close>

theorem dijkstra_terminates:
  assumes "wf_graph g" and "nonneg_costs g"
  shows "(\<exists>r. dijkstra_loop g dst (init g src) = Some r) \<and> (\<exists>r. dijkstra g src dst = Some r)"
  using loop_terminates[OF assms(2)] dijkstra_total[OF assms] by blast

theorem dijkstra_terminates_witness:
  "wf_graph server3 \<and> nonneg_costs server3
   \<and> (\<exists>r. dijkstra_loop server3 ''B'' (init server3 ''A'') = Some r)
   \<and> (\<exists>r. dijkstra server3 ''A'' ''B'' = Some r)"
proof -
  have w: "wf_graph server3" by (simp add: wf_graph_def keys_def server3_def E_def)
  have n: "nonneg_costs server3" by (simp add: nonneg_costs_def server3_def E_def)
  show ?thesis using w n dijkstra_terminates[OF w n, of "''B''" "''A''"] by simp
qed

end
